theory Spec2Isabelle
  imports Complex_Main
begin

section \<open>Subsampling helpers of the persistent-homology notebook\<close>

text \<open>
  The notebook \<^verbatim>\<open>Day 2 - Persistent homology.ipynb\<close> defines three helpers:
  \<^verbatim>\<open>maxmin\<close>, \<^verbatim>\<open>uniform_sampling\<close> and \<^verbatim>\<open>plot_barcodes\<close>.
  The two sampling functions only compare, copy and select entries of the distance
  matrix (no arithmetic is performed on them), so the entries are modelled as
  \<^typ>\<open>real\<close> numbers with their order. A two-dimensional array is the list of its
  rows; the rows of an array all have the same length. Python's \<^verbatim>\<open>n\<close> is an
  unbounded integer. Exceptions raised by the numeric library are values of
  \<open>error\<close>.
\<close>

datatype error = ValueError | IndexError | TypeError

type_synonym matrix = "real list list"

text \<open>
  The generator state is the sequence of raw draws still to come. A bounded draw
  reduces a raw draw into the requested range, so every outcome of the library call
  is the outcome at some state, and only those.
\<close>

type_synonym rng = "nat \<Rightarrow> nat"

subsection \<open>The library operations the helpers call\<close>

text \<open>\<^verbatim>\<open>np.random.randint(low, high)\<close>: one integer of \<open>[low, high)\<close>; ValueError when
  the range is empty.\<close>

definition randint :: "rng \<Rightarrow> nat \<Rightarrow> nat \<Rightarrow> error + nat" where
  "randint rs low high =
     (if high \<le> low then Inl ValueError else Inr (low + rs 0 mod (high - low)))"

text \<open>\<^verbatim>\<open>np.random.choice(a, size)\<close> for an integer \<open>a\<close>: \<open>size\<close> independent draws
  from \<open>[0, a)\<close> (with replacement); ValueError for a negative size, and for an empty
  population unless no sample is taken.\<close>

definition choice :: "rng \<Rightarrow> nat \<Rightarrow> int \<Rightarrow> error + nat list" where
  "choice rs a sz =
     (if sz < 0 then Inl ValueError
      else if a = 0 \<and> sz \<noteq> 0 then Inl ValueError
      else Inr (map (\<lambda>k. rs k mod a) [0..<nat sz]))"

text \<open>\<^verbatim>\<open>dist_matrix[i, :]\<close>: row \<open>i\<close>; IndexError beyond the last row.\<close>

definition row :: "matrix \<Rightarrow> nat \<Rightarrow> error + real list" where
  "row dm i = (if i < length dm then Inr (dm ! i) else Inl IndexError)"

text \<open>\<^verbatim>\<open>np.argmax\<close>: the index of the first occurrence of the maximum, found by one
  scan that replaces the best entry only by a strictly larger one; ValueError on an
  empty array.\<close>

fun argmax_scan :: "real list \<Rightarrow> nat \<Rightarrow> nat \<Rightarrow> real \<Rightarrow> nat" where
  "argmax_scan [] i bi bv = bi"
| "argmax_scan (x # xs) i bi bv =
     (if bv < x then argmax_scan xs (Suc i) i x else argmax_scan xs (Suc i) bi bv)"

definition np_argmax :: "real list \<Rightarrow> error + nat" where
  "np_argmax xs = (case xs of [] \<Rightarrow> Inl ValueError | x # ys \<Rightarrow> Inr (argmax_scan ys 1 0 x))"

text \<open>\<^verbatim>\<open>np.max\<close> of a one-dimensional array; ValueError on an empty array.\<close>

definition np_max :: "real list \<Rightarrow> error + real" where
  "np_max xs = (case xs of [] \<Rightarrow> Inl ValueError | x # ys \<Rightarrow> Inr (fold max ys x))"

text \<open>\<^verbatim>\<open>np.minimum\<close> of two rows of the same array: the elementwise minimum, a new
  array.\<close>

definition np_minimum :: "real list \<Rightarrow> real list \<Rightarrow> real list" where
  "np_minimum xs ys = map2 min xs ys"

text \<open>\<^verbatim>\<open>dist_matrix[L, :]\<close> with an index array \<open>L\<close>: the selected rows, in the order of
  \<open>L\<close>; IndexError when an index is beyond the last row.\<close>

fun take_rows :: "matrix \<Rightarrow> nat list \<Rightarrow> error + matrix" where
  "take_rows dm [] = Inr []"
| "take_rows dm (i # L) =
     (case row dm i of Inl e \<Rightarrow> Inl e
      | Inr r \<Rightarrow> (case take_rows dm L of Inl e \<Rightarrow> Inl e | Inr rows \<Rightarrow> Inr (r # rows)))"

text \<open>\<^verbatim>\<open>np.min(rows, axis=0)\<close>: the minimum of every column; ValueError when there is
  no row to reduce over.\<close>

definition np_min_axis0 :: "matrix \<Rightarrow> error + real list" where
  "np_min_axis0 rows =
     (case rows of [] \<Rightarrow> Inl ValueError | r # rest \<Rightarrow> Inr (fold (\<lambda>x acc. map2 min acc x) rest r))"

subsection \<open>maxmin\<close>

text \<open>
  The loop \<^verbatim>\<open>for i in range(n-1)\<close> with its two variables \<open>L\<close> and \<open>dist_to_L\<close>;
  the first argument counts the iterations left.
\<close>

fun maxmin_loop :: "matrix \<Rightarrow> nat \<Rightarrow> nat list \<Rightarrow> real list \<Rightarrow> error + (nat list \<times> real list)" where
  "maxmin_loop dm 0 L dist_to_L = Inr (L, dist_to_L)"
| "maxmin_loop dm (Suc k) L dist_to_L =
     (case np_argmax dist_to_L of
        Inl e \<Rightarrow> Inl e
      | Inr ind \<Rightarrow>
          (case row dm (last (L @ [ind])) of
             Inl e \<Rightarrow> Inl e
           | Inr r \<Rightarrow> maxmin_loop dm k (L @ [ind]) (np_minimum dist_to_L r)))"

definition maxmin :: "matrix \<Rightarrow> int \<Rightarrow> rng \<Rightarrow> error + (nat list \<times> real)" where
  "maxmin dist_matrix n rs =
     (case randint rs 0 (length dist_matrix) of
        Inl e \<Rightarrow> Inl e
      | Inr p \<Rightarrow>
          (case row dist_matrix (last [p]) of
             Inl e \<Rightarrow> Inl e
           | Inr d0 \<Rightarrow>
               (case maxmin_loop dist_matrix (nat (n - 1)) [p] d0 of
                  Inl e \<Rightarrow> Inl e
                | Inr (L, dist_to_L) \<Rightarrow>
                    (case np_max dist_to_L of
                       Inl e \<Rightarrow> Inl e
                     | Inr cr \<Rightarrow> Inr (L, cr)))))"

subsection \<open>uniform\_sampling\<close>

definition uniform_sampling :: "matrix \<Rightarrow> int \<Rightarrow> rng \<Rightarrow> error + (nat list \<times> real)" where
  "uniform_sampling dist_matrix n rs =
     (let num_points = length dist_matrix in
      case choice rs num_points n of
        Inl e \<Rightarrow> Inl e
      | Inr L \<Rightarrow>
          (case take_rows dist_matrix L of
             Inl e \<Rightarrow> Inl e
           | Inr rows \<Rightarrow>
               (case np_min_axis0 rows of
                  Inl e \<Rightarrow> Inl e
                | Inr dist_to_L \<Rightarrow>
                    (case np_max dist_to_L of
                       Inl e \<Rightarrow> Inl e
                     | Inr cr \<Rightarrow> Inr (L, cr)))))"

subsection \<open>Vocabulary of the specification\<close>

text \<open>
  A valid distance matrix is square, symmetric, non-negative and zero on the
  diagonal. It is \<open>separated\<close> when, in addition, two different points are never at
  distance zero.
\<close>

definition valid_dm :: "matrix \<Rightarrow> bool" where
  "valid_dm dm \<longleftrightarrow>
     (\<forall>r\<in>set dm. length r = length dm) \<and>
     (\<forall>i\<in>set [0..<length dm]. \<forall>j\<in>set [0..<length dm].
        0 \<le> dm ! i ! j \<and> dm ! i ! j = dm ! j ! i) \<and>
     (\<forall>i\<in>set [0..<length dm]. dm ! i ! i = 0)"

text \<open>An array of shape \<open>(length dm, C)\<close>: every row has \<open>C\<close> entries.\<close>

definition rectangular :: "matrix \<Rightarrow> nat \<Rightarrow> bool" where
  "rectangular dm C \<longleftrightarrow> (\<forall>r\<in>set dm. length r = C)"

definition separated :: "matrix \<Rightarrow> bool" where
  "separated dm \<longleftrightarrow>
     (\<forall>i\<in>set [0..<length dm]. \<forall>j\<in>set [0..<length dm]. i \<noteq> j \<longrightarrow> 0 < dm ! i ! j)"

text \<open>The covering radius as the specification words it: the maximum, over all points
  \<open>j\<close> of the cloud, of the minimum distance from \<open>j\<close> to the selected indices.\<close>

definition covering_radius :: "matrix \<Rightarrow> nat list \<Rightarrow> real" where
  "covering_radius dm L =
     Max (set (map (\<lambda>j. Min (set (map (\<lambda>i. dm ! j ! i) L))) [0..<length dm]))"

text \<open>The minimum of column \<open>j\<close> over the rows selected by \<open>L\<close>, and the array of these
  minima for the first \<open>C\<close> columns.\<close>

definition min_dist :: "matrix \<Rightarrow> nat list \<Rightarrow> nat \<Rightarrow> real" where
  "min_dist dm L j = Min (set (map (\<lambda>i. dm ! i ! j) L))"

definition dists_to :: "matrix \<Rightarrow> nat \<Rightarrow> nat list \<Rightarrow> real list" where
  "dists_to dm C L = map (min_dist dm L) [0..<C]"

text \<open>\<open>m\<close> is the position of the first occurrence of the maximum of \<open>xs\<close>.\<close>

definition is_first_argmax :: "real list \<Rightarrow> nat \<Rightarrow> bool" where
  "is_first_argmax xs m \<longleftrightarrow>
     m < length xs \<and> (\<forall>k\<in>set [0..<length xs]. xs ! k \<le> xs ! m) \<and>
     (\<forall>k\<in>set [0..<m]. xs ! k < xs ! m)"

text \<open>The per-point array as the specification describes its evolution: the distance
  row of the first selected point, then, after each selection, the elementwise minimum
  with the distance row of the point just selected.\<close>

fun dist_trace :: "matrix \<Rightarrow> nat list \<Rightarrow> nat \<Rightarrow> real list" where
  "dist_trace dm L 0 = dm ! (L ! 0)"
| "dist_trace dm L (Suc j) = np_minimum (dist_trace dm L j) (dm ! (L ! Suc j))"

text \<open>A generator state whose every raw draw is \<open>p\<close>.\<close>

definition fixed_state :: "nat \<Rightarrow> rng" where
  "fixed_state p k = p"

text \<open>A generator state whose first raw draws are the entries of \<open>v\<close>, in order (and 0
  from then on).\<close>

definition state_of :: "nat list \<Rightarrow> rng" where
  "state_of v k = (if k < length v then v ! k else 0)"

subsection \<open>Concrete inputs\<close>

text \<open>Four points at the corners of a square, numbered around it, with side \<open>s\<close> and
  diagonal \<open>d\<close>: point 2 is diagonally opposite point 0.\<close>

definition square_dm :: "real \<Rightarrow> real \<Rightarrow> matrix" where
  "square_dm s d = [[0, s, d, s], [s, 0, s, d], [d, s, 0, s], [s, d, s, 0]]"

text \<open>Point clouds that list a position twice: two positions at distance 1, each listed
  twice; and the same with a single copy of the second position.\<close>

definition twin_dm :: matrix where
  "twin_dm = [[0, 0, 1, 1], [0, 0, 1, 1], [1, 1, 0, 0], [1, 1, 0, 0]]"

definition twin3_dm :: matrix where
  "twin3_dm = [[0, 0, 1], [0, 0, 1], [1, 1, 0]]"

section \<open>The helpers on an explicit store\<close>

text \<open>
  Arrays are objects, and a slice of an array is a view that shares its memory. To state
  what the helpers do to the arrays they are given, the arrays live in a store: a list
  of buffers, the address of a buffer being its position. Allocation appends a buffer;
  an assignment into an array replaces the buffer at its address. A one-dimensional
  array is a row of a buffer, named by the buffer's address and the row's index: the
  view \<^verbatim>\<open>dist_matrix[i, :]\<close> is row \<open>i\<close> of the matrix's own buffer, and a new
  one-dimensional array is row 0 of a new buffer. Index lists and scalars are values.
\<close>

type_synonym addr = nat

type_synonym store = "matrix list"

type_synonym vec_ref = "addr \<times> nat"

definition alloc :: "'a list \<Rightarrow> 'a \<Rightarrow> addr \<times> 'a list" where
  "alloc h v = (length h, h @ [v])"

definition new_vec :: "store \<Rightarrow> real list \<Rightarrow> vec_ref \<times> store" where
  "new_vec h v = (case alloc h [v] of (b, h') \<Rightarrow> ((b, 0), h'))"

definition row_view :: "store \<Rightarrow> addr \<Rightarrow> nat \<Rightarrow> error + vec_ref" where
  "row_view h a i = (if i < length (h ! a) then Inr (a, i) else Inl IndexError)"

definition deref :: "store \<Rightarrow> vec_ref \<Rightarrow> real list" where
  "deref h r = h ! fst r ! snd r"

text \<open>\<^verbatim>\<open>maxmin\<close>: \<open>dist_to_L\<close> is first a view into the matrix, then, in every iteration,
  rebound to the new array that \<^verbatim>\<open>np.minimum\<close> returns.\<close>

fun maxmin_loop_store ::
  "store \<Rightarrow> addr \<Rightarrow> nat \<Rightarrow> nat list \<Rightarrow> vec_ref \<Rightarrow> (error + (nat list \<times> vec_ref)) \<times> store" where
  "maxmin_loop_store h dist_matrix 0 L dist_to_L = (Inr (L, dist_to_L), h)"
| "maxmin_loop_store h dist_matrix (Suc k) L dist_to_L =
     (case np_argmax (deref h dist_to_L) of
        Inl e \<Rightarrow> (Inl e, h)
      | Inr ind \<Rightarrow>
          (case row_view h dist_matrix (last (L @ [ind])) of
             Inl e \<Rightarrow> (Inl e, h)
           | Inr r \<Rightarrow>
               (case new_vec h (np_minimum (deref h dist_to_L) (deref h r)) of
                  (d', h') \<Rightarrow> maxmin_loop_store h' dist_matrix k (L @ [ind]) d')))"

definition maxmin_store :: "store \<Rightarrow> addr \<Rightarrow> int \<Rightarrow> rng \<Rightarrow> (error + (nat list \<times> real)) \<times> store" where
  "maxmin_store h dist_matrix n rs =
     (case randint rs 0 (length (h ! dist_matrix)) of
        Inl e \<Rightarrow> (Inl e, h)
      | Inr p \<Rightarrow>
          (case row_view h dist_matrix (last [p]) of
             Inl e \<Rightarrow> (Inl e, h)
           | Inr d0 \<Rightarrow>
               (case maxmin_loop_store h dist_matrix (nat (n - 1)) [p] d0 of
                  (Inl e, h') \<Rightarrow> (Inl e, h')
                | (Inr (L, dist_to_L), h') \<Rightarrow>
                    (case np_max (deref h' dist_to_L) of
                       Inl e \<Rightarrow> (Inl e, h')
                     | Inr cr \<Rightarrow> (Inr (L, cr), h')))))"

text \<open>\<^verbatim>\<open>uniform_sampling\<close>: indexing with an index array copies the selected rows into
  a new array, and the reduction over its first axis returns a new array.\<close>

definition uniform_sampling_store ::
  "store \<Rightarrow> addr \<Rightarrow> int \<Rightarrow> rng \<Rightarrow> (error + (nat list \<times> real)) \<times> store" where
  "uniform_sampling_store h dist_matrix n rs =
     (let num_points = length (h ! dist_matrix) in
      case choice rs num_points n of
        Inl e \<Rightarrow> (Inl e, h)
      | Inr L \<Rightarrow>
          (case take_rows (h ! dist_matrix) L of
             Inl e \<Rightarrow> (Inl e, h)
           | Inr rows \<Rightarrow>
               (case alloc h rows of
                  (b, h1) \<Rightarrow>
                    (case np_min_axis0 (h1 ! b) of
                       Inl e \<Rightarrow> (Inl e, h1)
                     | Inr m \<Rightarrow>
                         (case new_vec h1 m of
                            (dist_to_L, h2) \<Rightarrow>
                              (case np_max (deref h2 dist_to_L) of
                                 Inl e \<Rightarrow> (Inl e, h2)
                               | Inr cr \<Rightarrow> (Inr (L, cr), h2)))))))"

subsection \<open>plot\_barcodes\<close>

text \<open>
  A diagram is an array of (birth, death) rows whose entries are floating-point values:
  finite, infinite of either sign, or not a number. The figure is what the function
  produces: per subplot, the calls that draw on it (a bar from \<^verbatim>\<open>plot\<close>, an arrow marker
  from \<^verbatim>\<open>scatter\<close>, the axis limits); the calls that only style the axes (ticks, spines,
  label) are left out. \<^verbatim>\<open>plt.subplots(k)\<close> raises ValueError for \<open>k = 0\<close> and returns a
  single axes object, which cannot be subscripted, for \<open>k = 1\<close>. \<^verbatim>\<open>set_xlim\<close> raises
  ValueError when a limit is infinite or not a number.
\<close>

datatype xreal = Fin real | PInf | NInf | NaN

fun isinf :: "xreal \<Rightarrow> bool" where
  "isinf (Fin x) = False"
| "isinf PInf = True"
| "isinf NInf = True"
| "isinf NaN = False"

fun isfinite :: "xreal \<Rightarrow> bool" where
  "isfinite (Fin x) = True"
| "isfinite PInf = False"
| "isfinite NInf = False"
| "isfinite NaN = False"

text \<open>
  The product \<^verbatim>\<open>1.05*alpha_max\<close> in double precision. The literal \<^verbatim>\<open>1.05\<close> denotes the
  double \<open>4728779608739021 / 2 ^ 52\<close>. A product whose magnitude reaches
  \<open>2 ^ 1024 - 2 ^ 970\<close>, half a unit in the last place above the largest double, rounds
  to an infinity; a smaller one is recorded here as the exact product, which the
  machine rounds to the nearest double.
\<close>

definition times_1_05 :: "xreal \<Rightarrow> xreal" where
  "times_1_05 x =
     (case x of
        Fin a \<Rightarrow>
          (let p = 4728779608739021 / 2 ^ 52 * a in
           if 2 ^ 1024 - 2 ^ 970 \<le> \<bar>p\<bar> then (if 0 < p then PInf else NInf) else Fin p)
      | PInf \<Rightarrow> PInf
      | NInf \<Rightarrow> NInf
      | NaN \<Rightarrow> NaN)"

type_synonym diagram = "(xreal \<times> xreal) list"

type_synonym dstore = "diagram list"

datatype draw = Plot "xreal \<times> xreal" "nat \<times> nat" | Scatter xreal nat | Xlim xreal | Ylim nat

text \<open>\<^verbatim>\<open>np.copy\<close>: a new array with the same contents.\<close>

definition np_copy :: "dstore \<Rightarrow> addr \<Rightarrow> addr \<times> dstore" where
  "np_copy h a = alloc h (h ! a)"

text \<open>\<^verbatim>\<open>barcode[ind_inf, 1] = alpha_max\<close> on the contents of \<open>barcode\<close>: the second
  entry of every row that the boolean index selects.\<close>

definition masked_assign :: "diagram \<Rightarrow> bool list \<Rightarrow> xreal \<Rightarrow> diagram" where
  "masked_assign barcode ind v = map (\<lambda>(bd, m). if m then (fst bd, v) else bd) (zip barcode ind)"

text \<open>The loop \<^verbatim>\<open>for i in range(len(barcode))\<close>; \<open>ok\<close> tells whether \<^verbatim>\<open>axs[dim]\<close> can be
  evaluated.\<close>

fun bars_loop ::
  "bool \<Rightarrow> xreal \<Rightarrow> diagram \<Rightarrow> bool list \<Rightarrow> nat list \<Rightarrow> nat \<Rightarrow> draw list \<Rightarrow> error + (draw list \<times> nat)" where
  "bars_loop ok alpha_max barcode ind_inf [] h out = Inr (out, h)"
| "bars_loop ok alpha_max barcode ind_inf (i # rest) h out =
     (if \<not> ok then Inl TypeError
      else
        let x = barcode ! i;
            out1 = out @ [Plot x (h, h)];
            out2 = (if ind_inf ! i then out1 @ [Scatter alpha_max h] else out1)
        in bars_loop ok alpha_max barcode ind_inf rest (h + 1) out2)"

text \<open>The loop \<^verbatim>\<open>for dim in range(max_dim)\<close>; the loop variable is \<open>dim_i\<close> here. After
  the bars of a dimension, \<^verbatim>\<open>axs[dim].set_xlim(0, 1.05*alpha_max)\<close> first evaluates
  \<^verbatim>\<open>axs[dim]\<close>, then the product, then checks the limit.\<close>

fun dims_loop ::
  "dstore \<Rightarrow> addr list \<Rightarrow> bool \<Rightarrow> xreal \<Rightarrow> nat list \<Rightarrow> draw list list \<Rightarrow> (error + draw list list) \<times> dstore" where
  "dims_loop h diagrams ok alpha_max [] fig = (Inr fig, h)"
| "dims_loop h diagrams ok alpha_max (dim_i # dims) fig =
     (case np_copy h (diagrams ! dim_i) of
        (barcode, h1) \<Rightarrow>
          (let ind_inf = map (\<lambda>bd. isinf (snd bd)) (h1 ! barcode);
               h2 = h1[barcode := masked_assign (h1 ! barcode) ind_inf alpha_max]
           in case bars_loop ok alpha_max (h2 ! barcode) ind_inf [0..<length (h2 ! barcode)] 1 [] of
                Inl e \<Rightarrow> (Inl e, h2)
              | Inr (out, hh) \<Rightarrow>
                  if \<not> ok then (Inl TypeError, h2)
                  else if \<not> isfinite (times_1_05 alpha_max) then (Inl ValueError, h2)
                  else dims_loop h2 diagrams ok alpha_max dims
                         (fig @ [out @ [Xlim (times_1_05 alpha_max), Ylim hh]])))"

definition plot_barcodes :: "dstore \<Rightarrow> addr list \<Rightarrow> xreal \<Rightarrow> (error + draw list list) \<times> dstore" where
  "plot_barcodes h diagrams alpha_max =
     (let max_dim = length diagrams in
      if max_dim = 0 then (Inl ValueError, h)
      else dims_loop h diagrams (2 \<le> max_dim) alpha_max [0..<max_dim] [])"

text \<open>A diagram with the display maximum in place of every infinite death value.\<close>

definition capped :: "xreal \<Rightarrow> diagram \<Rightarrow> diagram" where
  "capped alpha_max d = map (\<lambda>bd. if isinf (snd bd) then (fst bd, alpha_max) else bd) d"

text \<open>Two diagrams as the homology engine returns them: dimension 0 with one bar that
  never dies, dimension 1 with one finite bar.\<close>

definition example_diagrams :: dstore where
  "example_diagrams = [[(Fin 0, PInf), (Fin 0, Fin 1)], [(Fin 1, Fin 2)]]"

section \<open>Properties of the library operations\<close>

lemma argmax_scan_spec:
  assumes "length pre = i" "bi < i" "pre ! bi = bv" "\<forall>k<i. pre ! k \<le> bv" "\<forall>k<bi. pre ! k < bv"
  shows "is_first_argmax (pre @ xs) (argmax_scan xs i bi bv)"
  using assms
proof (induction xs arbitrary: pre i bi bv)
  case Nil
  then show ?case by (simp add: is_first_argmax_def)
next
  case (Cons x xs)
  show ?case
  proof (cases "bv < x")
    case True
    have "is_first_argmax ((pre @ [x]) @ xs) (argmax_scan xs (Suc i) i x)"
    proof (rule Cons.IH)
      show "length (pre @ [x]) = Suc i" using Cons.prems by simp
      show "i < Suc i" by simp
      show "(pre @ [x]) ! i = x" using Cons.prems by (simp add: nth_append)
      show "\<forall>k<Suc i. (pre @ [x]) ! k \<le> x"
        using Cons.prems True by (auto simp: nth_append less_Suc_eq intro: less_imp_le order_trans)
      show "\<forall>k<i. (pre @ [x]) ! k < x"
        using Cons.prems True by (auto simp: nth_append intro: le_less_trans)
    qed
    with True show ?thesis by simp
  next
    case False
    have "is_first_argmax ((pre @ [x]) @ xs) (argmax_scan xs (Suc i) bi bv)"
    proof (rule Cons.IH)
      show "length (pre @ [x]) = Suc i" using Cons.prems by simp
      show "bi < Suc i" using Cons.prems by simp
      show "(pre @ [x]) ! bi = bv" using Cons.prems by (simp add: nth_append)
      show "\<forall>k<Suc i. (pre @ [x]) ! k \<le> bv"
        using Cons.prems False by (auto simp: nth_append less_Suc_eq)
      show "\<forall>k<bi. (pre @ [x]) ! k < bv"
        using Cons.prems by (auto simp: nth_append)
    qed
    with False show ?thesis by simp
  qed
qed

lemma np_argmax_spec:
  assumes "xs \<noteq> []"
  shows "\<exists>m. np_argmax xs = Inr m \<and> is_first_argmax xs m"
proof -
  from assms obtain x ys where xs: "xs = x # ys" by (cases xs) auto
  have "is_first_argmax ([x] @ ys) (argmax_scan ys 1 0 x)"
    by (rule argmax_scan_spec) simp_all
  then show ?thesis by (simp add: xs np_argmax_def)
qed

lemma np_argmax_empty: "np_argmax [] = Inl ValueError"
  by (simp add: np_argmax_def)

lemma np_max_spec: "xs \<noteq> [] \<Longrightarrow> np_max xs = Inr (Max (set xs))"
  by (cases xs) (simp_all add: np_max_def Max.set_eq_fold del: set_simps)

lemma is_first_argmax_unique:
  "is_first_argmax xs a \<Longrightarrow> is_first_argmax xs b \<Longrightarrow> a = b"
  unfolding is_first_argmax_def
  by (metis atLeast0LessThan lessThan_iff linorder_neqE_nat not_le set_upt)

lemma is_first_argmax_Max:
  "is_first_argmax xs m \<Longrightarrow> xs ! m = Max (set xs)"
  unfolding is_first_argmax_def
  by (auto intro!: Max_eqI[symmetric] simp: in_set_conv_nth)

lemma min_dist_snoc:
  "L \<noteq> [] \<Longrightarrow> min_dist dm (L @ [a]) j = min (min_dist dm L j) (dm ! a ! j)"
  by (simp add: min_dist_def min.commute)

lemma min_dist_single: "min_dist dm [a] j = dm ! a ! j"
  by (simp add: min_dist_def)

lemma dists_to_snoc:
  assumes "L \<noteq> []" "length (dm ! a) = C"
  shows "np_minimum (dists_to dm C L) (dm ! a) = dists_to dm C (L @ [a])"
  using assms
  by (intro nth_equalityI) (simp_all add: np_minimum_def dists_to_def min_dist_snoc)

lemma dists_to_single:
  assumes "length (dm ! a) = C"
  shows "dm ! a = dists_to dm C [a]"
  using assms
  by (intro nth_equalityI) (simp_all add: dists_to_def min_dist_single)

lemma maxmin_loop_inv:
  assumes "\<forall>r\<in>set dm. length r = C" "0 < C" "C \<le> length dm"
    "L \<noteq> []" "\<forall>i\<in>set L. i < length dm"
  shows "\<exists>L'. maxmin_loop dm k L (dists_to dm C L) = Inr (L', dists_to dm C L')
           \<and> length L' = length L + k \<and> take (length L) L' = L
           \<and> (\<forall>i\<in>set L'. i < length dm)
           \<and> (\<forall>m. length L \<le> m \<and> m < length L' \<longrightarrow>
                  is_first_argmax (dists_to dm C (take m L')) (L' ! m))"
  using assms(4,5)
proof (induction k arbitrary: L)
  case 0
  then show ?case by auto
next
  case (Suc k)
  let ?d = "dists_to dm C L"
  have "?d \<noteq> []" using assms(2) by (simp add: dists_to_def)
  then obtain ind where ind: "np_argmax ?d = Inr ind" "is_first_argmax ?d ind"
    using np_argmax_spec by blast
  then have "ind < C" by (simp add: is_first_argmax_def dists_to_def)
  then have lt: "ind < length dm" using assms(3) by simp
  then have len: "length (dm ! ind) = C" using assms(1) by simp
  have rw: "row dm ind = Inr (dm ! ind)" using lt by (simp add: row_def)
  have upd: "np_minimum ?d (dm ! ind) = dists_to dm C (L @ [ind])"
    using Suc.prems(1) len by (rule dists_to_snoc)
  have "L @ [ind] \<noteq> []" "\<forall>i\<in>set (L @ [ind]). i < length dm"
    using Suc.prems lt by auto
  from Suc.IH[OF this] obtain L' where L':
    "maxmin_loop dm k (L @ [ind]) (dists_to dm C (L @ [ind])) = Inr (L', dists_to dm C L')"
    "length L' = length (L @ [ind]) + k" "take (length (L @ [ind])) L' = L @ [ind]"
    "\<forall>i\<in>set L'. i < length dm"
    "\<forall>m. length (L @ [ind]) \<le> m \<and> m < length L' \<longrightarrow>
        is_first_argmax (dists_to dm C (take m L')) (L' ! m)"
    by blast
  have step: "maxmin_loop dm (Suc k) L ?d = Inr (L', dists_to dm C L')"
    using ind(1) rw upd L'(1) by simp
  have pre: "take (length L) L' = L"
  proof -
    have "take (length L) L' = take (length L) (take (length (L @ [ind])) L')"
      by (simp add: min_def)
    also have "\<dots> = take (length L) (L @ [ind])" by (simp only: L'(3))
    also have "\<dots> = L" by simp
    finally show ?thesis .
  qed
  have at: "L' ! length L = ind"
  proof -
    have "L' ! length L = take (length (L @ [ind])) L' ! length L" by simp
    also have "\<dots> = ind" unfolding L'(3) by simp
    finally show ?thesis .
  qed
  have greedy: "is_first_argmax (dists_to dm C (take m L')) (L' ! m)"
    if "length L \<le> m" "m < length L'" for m
  proof (cases "m = length L")
    case True
    then show ?thesis using ind(2) pre at by simp
  next
    case False
    then show ?thesis using that L'(5) by simp
  qed
  show ?case using step L'(2,4) pre greedy by auto
qed

section \<open>Minimum distances to the selected points\<close>

lemma valid_dmD:
  assumes "valid_dm dm"
  shows "\<And>r. r \<in> set dm \<Longrightarrow> length r = length dm"
    and "\<And>i j. i < length dm \<Longrightarrow> j < length dm \<Longrightarrow> 0 \<le> dm ! i ! j"
    and "\<And>i j. i < length dm \<Longrightarrow> j < length dm \<Longrightarrow> dm ! i ! j = dm ! j ! i"
    and "\<And>i. i < length dm \<Longrightarrow> dm ! i ! i = 0"
  using assms by (auto simp: valid_dm_def)

lemma min_dist_nonneg:
  assumes "valid_dm dm" "L \<noteq> []" "\<forall>i\<in>set L. i < length dm" "j < length dm"
  shows "0 \<le> min_dist dm L j"
  using assms by (auto simp: min_dist_def valid_dmD(2))

lemma min_dist_selected:
  assumes "valid_dm dm" "\<forall>i\<in>set L. i < length dm" "j \<in> set L"
  shows "min_dist dm L j = 0"
proof -
  have j: "j < length dm" using assms(2,3) by auto
  have "L \<noteq> []" using assms(3) by auto
  then have ge: "0 \<le> min_dist dm L j" using assms j by (intro min_dist_nonneg) auto
  have "min_dist dm L j \<le> dm ! j ! j"
    unfolding min_dist_def using assms(3) by (intro Min_le) auto
  then show ?thesis using ge valid_dmD(4)[OF assms(1) j] by simp
qed

lemma min_dist_unselected:
  assumes "separated dm" "L \<noteq> []" "\<forall>i\<in>set L. i < length dm" "j < length dm" "j \<notin> set L"
  shows "0 < min_dist dm L j"
proof -
  have "0 < dm ! i ! j" if "i \<in> set L" for i
  proof -
    have "i < length dm" "i \<noteq> j" using that assms(3,5) by auto
    then show ?thesis using assms(1,4) by (simp add: separated_def)
  qed
  then show ?thesis using assms(2) by (simp add: min_dist_def)
qed

lemma min_dist_antimono:
  assumes "L \<noteq> []" "set L \<subseteq> set L'"
  shows "min_dist dm L' j \<le> min_dist dm L j"
  unfolding min_dist_def using assms by (intro Min_antimono) auto

lemma covering_radius_dists_to:
  assumes "valid_dm dm" "\<forall>i\<in>set L. i < length dm"
  shows "covering_radius dm L = Max (set (dists_to dm (length dm) L))"
proof -
  have "map (\<lambda>j. Min (set (map (\<lambda>i. dm ! j ! i) L))) [0..<length dm]
        = map (min_dist dm L) [0..<length dm]"
  proof (rule map_cong[OF refl])
    fix j assume "j \<in> set [0..<length dm]"
    then have j: "j < length dm" by simp
    have "map (\<lambda>i. dm ! j ! i) L = map (\<lambda>i. dm ! i ! j) L"
      using assms(2) j by (intro map_cong[OF refl]) (simp add: valid_dmD(3)[OF assms(1)])
    then show "Min (set (map (\<lambda>i. dm ! j ! i) L)) = min_dist dm L j"
      by (simp only: min_dist_def)
  qed
  then show ?thesis by (simp only: covering_radius_def dists_to_def)
qed

lemma Max_dists_to_nonneg:
  assumes "valid_dm dm" "dm \<noteq> []" "L \<noteq> []" "\<forall>i\<in>set L. i < length dm"
  shows "0 \<le> Max (set (dists_to dm (length dm) L))"
proof -
  have "0 < length dm" using assms(2) by simp
  then have "min_dist dm L 0 \<in> set (dists_to dm (length dm) L)"
    by (auto simp: dists_to_def)
  then have "min_dist dm L 0 \<le> Max (set (dists_to dm (length dm) L))" by simp
  moreover have "0 \<le> min_dist dm L 0"
    using assms \<open>0 < length dm\<close> by (intro min_dist_nonneg) auto
  ultimately show ?thesis by linarith
qed

lemma Max_dists_to_antimono:
  assumes "0 < C" "L \<noteq> []" "set L \<subseteq> set L'"
  shows "Max (set (dists_to dm C L')) \<le> Max (set (dists_to dm C L))"
proof -
  have ne: "set (dists_to dm C L') \<noteq> {}" using assms(1) by (simp add: dists_to_def)
  have "x \<le> Max (set (dists_to dm C L))" if "x \<in> set (dists_to dm C L')" for x
  proof -
    from that obtain j where j: "j < C" "x = min_dist dm L' j" by (auto simp: dists_to_def)
    have "min_dist dm L j \<in> set (dists_to dm C L)" using j(1) by (auto simp: dists_to_def)
    then have "min_dist dm L j \<le> Max (set (dists_to dm C L))" by simp
    with min_dist_antimono[OF assms(2,3), of dm j] j(2) show ?thesis by linarith
  qed
  then show ?thesis using ne by simp
qed

lemma fresh_imp_distinct:
  assumes "\<forall>m. 1 \<le> m \<and> m < length L \<longrightarrow> L ! m \<notin> set (take m L)"
  shows "distinct L"
proof -
  have "distinct (take m L)" if "m \<le> length L" for m
    using that
  proof (induction m)
    case 0
    then show ?case by simp
  next
    case (Suc m)
    then have m: "m < length L" by simp
    show ?case
    proof (cases "m = 0")
      case True
      then show ?thesis using m by (simp add: take_Suc_conv_app_nth)
    next
      case False
      then have "L ! m \<notin> set (take m L)" using assms m by simp
      then show ?thesis using Suc m by (simp add: take_Suc_conv_app_nth)
    qed
  qed
  from this[of "length L"] show ?thesis by simp
qed

lemma greedy_fresh:
  assumes v: "valid_dm dm"
    and g: "is_first_argmax (dists_to dm (length dm) (take m L)) (L ! m)"
    and m: "1 \<le> m" "m < length L"
    and r: "\<forall>i\<in>set L. i < length dm"
    and j: "j < length dm" "0 < min_dist dm (take m L) j"
  shows "L ! m \<notin> set (take m L)"
proof
  assume sel: "L ! m \<in> set (take m L)"
  have r': "\<forall>i\<in>set (take m L). i < length dm" using r by (auto dest: in_set_takeD)
  have "min_dist dm (take m L) (L ! m) = 0" using v r' sel by (rule min_dist_selected)
  moreover have "min_dist dm (take m L) j \<le> min_dist dm (take m L) (L ! m)"
    using g j(1) by (auto simp: is_first_argmax_def dists_to_def)
  ultimately show False using j(2) by simp
qed

section \<open>What a run of each sampling function returns\<close>

lemma maxmin_loop_add:
  "maxmin_loop dm (a + b) L d =
     (case maxmin_loop dm a L d of Inl e \<Rightarrow> Inl e | Inr (L1, d1) \<Rightarrow> maxmin_loop dm b L1 d1)"
  by (induction a arbitrary: L d) (auto split: sum.splits)

lemma maxmin_run:
  assumes "\<forall>r\<in>set dm. length r = C" "0 < C" "C \<le> length dm"
  shows "\<exists>L. maxmin dm n rs = Inr (L, Max (set (dists_to dm C L)))
           \<and> maxmin_loop dm (nat (n - 1)) [rs 0 mod length dm] (dm ! (rs 0 mod length dm))
               = Inr (L, dists_to dm C L)
           \<and> length L = Suc (nat (n - 1)) \<and> L ! 0 = rs 0 mod length dm
           \<and> (\<forall>i\<in>set L. i < length dm)
           \<and> (\<forall>m. 1 \<le> m \<and> m < length L \<longrightarrow>
                  is_first_argmax (dists_to dm C (take m L)) (L ! m))"
proof -
  let ?p = "rs 0 mod length dm"
  have N: "0 < length dm" using assms(2,3) by linarith
  then have p: "?p < length dm" by simp
  have ri: "randint rs 0 (length dm) = Inr ?p" using N by (simp add: randint_def)
  have rw: "row dm (last [?p]) = Inr (dm ! ?p)" using p by (simp add: row_def)
  have "length (dm ! ?p) = C" using assms(1) p by simp
  then have d0: "dm ! ?p = dists_to dm C [?p]" by (rule dists_to_single)
  have "[?p] \<noteq> []" "\<forall>i\<in>set [?p]. i < length dm" using p by simp_all
  from maxmin_loop_inv[OF assms this, of "nat (n - 1)"] obtain L where L:
    "maxmin_loop dm (nat (n - 1)) [?p] (dists_to dm C [?p]) = Inr (L, dists_to dm C L)"
    "length L = length [?p] + nat (n - 1)" "take (length [?p]) L = [?p]"
    "\<forall>i\<in>set L. i < length dm"
    "\<forall>m. length [?p] \<le> m \<and> m < length L \<longrightarrow>
        is_first_argmax (dists_to dm C (take m L)) (L ! m)"
    by blast
  have "dists_to dm C L \<noteq> []" using assms(2) by (simp add: dists_to_def)
  then have mx: "np_max (dists_to dm C L) = Inr (Max (set (dists_to dm C L)))"
    by (rule np_max_spec)
  have run: "maxmin dm n rs = Inr (L, Max (set (dists_to dm C L)))"
    using ri rw L(1) mx d0 by (simp add: maxmin_def)
  have hd: "L ! 0 = ?p"
  proof -
    have "L ! 0 = take (length [?p]) L ! 0" by simp
    then show ?thesis by (simp only: L(3)) simp
  qed
  show ?thesis using run L(1,2,4,5) hd d0 by auto
qed

lemma take_rows_ok:
  "\<forall>i\<in>set L. i < length dm \<Longrightarrow> take_rows dm L = Inr (map (\<lambda>i. dm ! i) L)"
  by (induction L) (simp_all add: row_def)

lemma fold_min_rows:
  assumes "\<forall>r\<in>set dm. length r = C" "\<forall>i\<in>set L2. i < length dm" "L1 \<noteq> []"
  shows "fold (\<lambda>x acc. map2 min acc x) (map (\<lambda>i. dm ! i) L2) (dists_to dm C L1)
         = dists_to dm C (L1 @ L2)"
  using assms(2,3)
proof (induction L2 arbitrary: L1)
  case Nil
  then show ?case by simp
next
  case (Cons a L2)
  have "length (dm ! a) = C" using assms(1) Cons.prems(1) by simp
  with Cons.prems(2) have "np_minimum (dists_to dm C L1) (dm ! a) = dists_to dm C (L1 @ [a])"
    by (rule dists_to_snoc)
  then have "map2 min (dists_to dm C L1) (dm ! a) = dists_to dm C (L1 @ [a])"
    by (simp add: np_minimum_def)
  moreover have "fold (\<lambda>x acc. map2 min acc x) (map (\<lambda>i. dm ! i) L2) (dists_to dm C (L1 @ [a]))
         = dists_to dm C ((L1 @ [a]) @ L2)"
    using Cons.prems by (intro Cons.IH) auto
  ultimately show ?case by simp
qed

lemma np_min_axis0_rows:
  assumes "\<forall>r\<in>set dm. length r = C" "\<forall>i\<in>set L. i < length dm" "L \<noteq> []"
  shows "np_min_axis0 (map (\<lambda>i. dm ! i) L) = Inr (dists_to dm C L)"
proof -
  from assms(3) obtain a L2 where L: "L = a # L2" by (cases L) auto
  have "length (dm ! a) = C" using assms(1,2) L by simp
  then have d0: "dm ! a = dists_to dm C [a]" by (rule dists_to_single)
  have "fold (\<lambda>x acc. map2 min acc x) (map (\<lambda>i. dm ! i) L2) (dists_to dm C [a])
         = dists_to dm C ([a] @ L2)"
    using assms(1,2) L by (intro fold_min_rows) auto
  then show ?thesis using d0 by (simp add: np_min_axis0_def L)
qed

lemma uniform_sampling_run:
  assumes "\<forall>r\<in>set dm. length r = C" "0 < C" "dm \<noteq> []" "1 \<le> n"
  shows "uniform_sampling dm n rs =
           Inr (map (\<lambda>k. rs k mod length dm) [0..<nat n],
                Max (set (dists_to dm C (map (\<lambda>k. rs k mod length dm) [0..<nat n]))))"
proof -
  let ?L = "map (\<lambda>k. rs k mod length dm) [0..<nat n]"
  have N: "0 < length dm" using assms(3) by simp
  have ch: "choice rs (length dm) n = Inr ?L" using assms(4) N by (simp add: choice_def)
  have r: "\<forall>i\<in>set ?L. i < length dm" using N by simp
  have ne: "?L \<noteq> []" using assms(4) by simp
  have tr: "take_rows dm ?L = Inr (map (\<lambda>i. dm ! i) ?L)" using r by (rule take_rows_ok)
  have mn: "np_min_axis0 (map (\<lambda>i. dm ! i) ?L) = Inr (dists_to dm C ?L)"
    using assms(1) r ne by (rule np_min_axis0_rows)
  have "dists_to dm C ?L \<noteq> []" using assms(2) by (simp add: dists_to_def)
  then have mx: "np_max (dists_to dm C ?L) = Inr (Max (set (dists_to dm C ?L)))"
    by (rule np_max_spec)
  show ?thesis using ch tr mn mx by (simp add: uniform_sampling_def)
qed

lemma uniform_sampling_fails:
  assumes "n \<le> 0 \<or> dm = []"
  shows "uniform_sampling dm n rs = Inl ValueError"
proof (cases "n < 0 \<or> (dm = [] \<and> n \<noteq> 0)")
  case True
  then show ?thesis by (auto simp: uniform_sampling_def choice_def)
next
  case False
  with assms have "n = 0" by auto
  then show ?thesis by (simp add: uniform_sampling_def choice_def np_min_axis0_def)
qed

lemma maxmin_fails_empty: "maxmin [] n rs = Inl ValueError"
  by (simp add: maxmin_def randint_def)

lemma valid_rows: "valid_dm dm \<Longrightarrow> \<forall>r\<in>set dm. length r = length dm"
  by (simp add: valid_dm_def)

lemma exists_unselected:
  assumes "length xs < N"
  shows "\<exists>j<N. j \<notin> set xs"
proof (rule ccontr)
  assume "\<not> (\<exists>j<N. j \<notin> set xs)"
  then have "{..<N} \<subseteq> set xs" by auto
  then have "card {..<N} \<le> card (set xs)" by (intro card_mono) auto
  moreover have "card (set xs) \<le> length xs" by (rule card_length)
  ultimately show False using assms by simp
qed

lemma greedy_separated_distinct:
  assumes v: "valid_dm dm" and s: "separated dm"
    and len: "length L \<le> length dm"
    and r: "\<forall>i\<in>set L. i < length dm"
    and g: "\<forall>m. 1 \<le> m \<and> m < length L \<longrightarrow>
              is_first_argmax (dists_to dm (length dm) (take m L)) (L ! m)"
  shows "distinct L"
proof (rule fresh_imp_distinct, intro allI impI)
  fix m assume m: "1 \<le> m \<and> m < length L"
  then have "length (take m L) < length dm" using len by simp
  then obtain j where j: "j < length dm" "j \<notin> set (take m L)"
    using exists_unselected by blast
  have ne: "take m L \<noteq> []" using m by auto
  have r': "\<forall>i\<in>set (take m L). i < length dm" using r by (auto dest: in_set_takeD)
  have "0 < min_dist dm (take m L) j" using s ne r' j by (rule min_dist_unselected)
  with v g m r j(1) show "L ! m \<notin> set (take m L)"
    by (intro greedy_fresh[where j = j]) auto
qed

lemma greedy_full_cover:
  assumes v: "valid_dm dm" and ne: "dm \<noteq> []"
    and len: "length L = length dm"
    and r: "\<forall>i\<in>set L. i < length dm"
    and g: "\<forall>m. 1 \<le> m \<and> m < length L \<longrightarrow>
              is_first_argmax (dists_to dm (length dm) (take m L)) (L ! m)"
  shows "Max (set (dists_to dm (length dm) L)) = 0"
proof (rule ccontr)
  let ?N = "length dm"
  assume nz: "Max (set (dists_to dm ?N L)) \<noteq> 0"
  have Lne: "L \<noteq> []" using len ne by auto
  have "0 \<le> Max (set (dists_to dm ?N L))" using v ne Lne r by (rule Max_dists_to_nonneg)
  with nz have pos: "0 < Max (set (dists_to dm ?N L))" by simp
  have "set (dists_to dm ?N L) \<noteq> {}" using ne by (simp add: dists_to_def)
  then have "Max (set (dists_to dm ?N L)) \<in> set (dists_to dm ?N L)" by (intro Max_in) auto
  then obtain j where j: "j < ?N" "0 < min_dist dm L j"
    using pos by (auto simp: dists_to_def)
  have fresh: "L ! m \<notin> set (take m L)" if m: "1 \<le> m \<and> m < length L" for m
  proof -
    have "take m L \<noteq> []" using m by auto
    moreover have "set (take m L) \<subseteq> set L" by (rule set_take_subset)
    ultimately have "min_dist dm L j \<le> min_dist dm (take m L) j" by (rule min_dist_antimono)
    with j(2) have "0 < min_dist dm (take m L) j" by simp
    with v g m r j(1) show ?thesis by (intro greedy_fresh[where j = j]) auto
  qed
  then have "distinct L" by (intro fresh_imp_distinct) auto
  then have "card (set L) = ?N" using len by (simp add: distinct_card)
  moreover have "set L \<subseteq> {..<?N}" using r by auto
  ultimately have "set L = {..<?N}" by (intro card_subset_eq) auto
  then have "j \<in> set L" using j(1) by simp
  with v r have "min_dist dm L j = 0" by (intro min_dist_selected)
  with j(2) show False by simp
qed

lemma maxmin_valid_run:
  assumes "valid_dm dm" "dm \<noteq> []"
  shows "\<exists>L. maxmin dm n rs = Inr (L, covering_radius dm L)
           \<and> covering_radius dm L = Max (set (dists_to dm (length dm) L))
           \<and> maxmin_loop dm (nat (n - 1)) [rs 0 mod length dm] (dm ! (rs 0 mod length dm))
               = Inr (L, dists_to dm (length dm) L)
           \<and> length L = Suc (nat (n - 1)) \<and> L ! 0 = rs 0 mod length dm
           \<and> (\<forall>i\<in>set L. i < length dm)
           \<and> (\<forall>m. 1 \<le> m \<and> m < length L \<longrightarrow>
                  is_first_argmax (dists_to dm (length dm) (take m L)) (L ! m))"
proof -
  have N: "0 < length dm" using assms(2) by simp
  from maxmin_run[OF valid_rows[OF assms(1)] N order_refl, of n rs]
  obtain L where L: "maxmin dm n rs = Inr (L, Max (set (dists_to dm (length dm) L)))"
    "maxmin_loop dm (nat (n - 1)) [rs 0 mod length dm] (dm ! (rs 0 mod length dm))
               = Inr (L, dists_to dm (length dm) L)"
    "length L = Suc (nat (n - 1))" "L ! 0 = rs 0 mod length dm"
    "\<forall>i\<in>set L. i < length dm"
    "\<forall>m. 1 \<le> m \<and> m < length L \<longrightarrow>
                  is_first_argmax (dists_to dm (length dm) (take m L)) (L ! m)"
    by blast
  have "covering_radius dm L = Max (set (dists_to dm (length dm) L))"
    using assms(1) L(5) by (rule covering_radius_dists_to)
  with L show ?thesis by auto
qed

subsection \<open>Every prefix of a run is a run\<close>

lemma dist_trace_dists_to:
  assumes "\<forall>r\<in>set dm. length r = C" "\<forall>i\<in>set L. i < length dm" "j < length L"
  shows "dist_trace dm L j = dists_to dm C (take (Suc j) L)"
  using assms(3)
proof (induction j)
  case 0
  then have "L ! 0 \<in> set L" by simp
  then have "length (dm ! (L ! 0)) = C" using assms(1,2) by simp
  then have "dm ! (L ! 0) = dists_to dm C [L ! 0]" by (rule dists_to_single)
  moreover have "take (Suc 0) L = [L ! 0]" using 0 by (cases L) simp_all
  ultimately show ?case by simp
next
  case (Suc j)
  then have "L ! Suc j \<in> set L" by simp
  then have len: "length (dm ! (L ! Suc j)) = C" using assms(1,2) by simp
  have ne: "take (Suc j) L \<noteq> []" using Suc.prems by auto
  have "dist_trace dm L (Suc j) = np_minimum (dists_to dm C (take (Suc j) L)) (dm ! (L ! Suc j))"
    using Suc by simp
  also have "\<dots> = dists_to dm C (take (Suc j) L @ [L ! Suc j])"
    using ne len by (rule dists_to_snoc)
  also have "take (Suc j) L @ [L ! Suc j] = take (Suc (Suc j)) L"
    using Suc.prems by (simp add: take_Suc_conv_app_nth)
  finally show ?case .
qed

lemma maxmin_loop_prefix:
  assumes rows: "\<forall>r\<in>set dm. length r = C" and C: "0 < C" "C \<le> length dm"
    and p: "p < length dm"
    and run: "maxmin_loop dm k [p] (dm ! p) = Inr (L, d)"
    and j: "j \<le> k"
  shows "maxmin_loop dm j [p] (dm ! p) = Inr (take (Suc j) L, dists_to dm C (take (Suc j) L))"
proof -
  have "length (dm ! p) = C" using rows p by simp
  then have d0: "dm ! p = dists_to dm C [p]" by (rule dists_to_single)
  have s: "[p] \<noteq> []" "\<forall>i\<in>set [p]. i < length dm" using p by simp_all
  from maxmin_loop_inv[OF rows C s, of j] obtain Lj where Lj:
    "maxmin_loop dm j [p] (dists_to dm C [p]) = Inr (Lj, dists_to dm C Lj)"
    "length Lj = length [p] + j" "\<forall>i\<in>set Lj. i < length dm"
    by blast
  have ne: "Lj \<noteq> []" using Lj(2) by auto
  have "k = j + (k - j)" using j by simp
  then have "maxmin_loop dm k [p] (dm ! p) = maxmin_loop dm (k - j) Lj (dists_to dm C Lj)"
    using Lj(1) d0 maxmin_loop_add[of dm j "k - j" "[p]" "dm ! p"] by simp
  with run have cont: "maxmin_loop dm (k - j) Lj (dists_to dm C Lj) = Inr (L, d)" by simp
  from maxmin_loop_inv[OF rows C ne Lj(3), of "k - j"] obtain L2 where
    "maxmin_loop dm (k - j) Lj (dists_to dm C Lj) = Inr (L2, dists_to dm C L2)"
    "take (length Lj) L2 = Lj"
    by blast
  with cont have "take (length Lj) L = Lj" by simp
  then have "Lj = take (Suc j) L" using Lj(2) by simp
  with Lj(1) d0 show ?thesis by simp
qed

subsection \<open>The failures of maxmin\<close>

lemma maxmin_loop_error:
  assumes "\<forall>r\<in>set dm. length r = C" "0 < C" "length d = C"
  shows "(maxmin_loop dm k L d = Inl e \<longrightarrow> e = IndexError)
       \<and> (maxmin_loop dm k L d = Inr (L', d') \<longrightarrow> length d' = C)"
  using assms(3)
proof (induction k arbitrary: L d)
  case 0
  then show ?case by auto
next
  case (Suc k)
  have "d \<noteq> []" using Suc.prems assms(2) by auto
  then obtain ind where ind: "np_argmax d = Inr ind" using np_argmax_spec by blast
  show ?case
  proof (cases "ind < length dm")
    case True
    then have "length (dm ! ind) = C" using assms(1) by simp
    then have "length (np_minimum d (dm ! ind)) = C" using Suc.prems by (simp add: np_minimum_def)
    from Suc.IH[OF this, of "L @ [ind]"] show ?thesis using ind True by (simp add: row_def)
  next
    case False
    then show ?thesis using ind by (simp add: row_def)
  qed
qed

lemma maxmin_error:
  assumes "\<forall>r\<in>set dm. length r = C" "0 < C" "dm \<noteq> []" "maxmin dm n rs = Inl e"
  shows "e = IndexError"
proof -
  let ?p = "rs 0 mod length dm"
  have N: "0 < length dm" using assms(3) by simp
  then have p: "?p < length dm" by simp
  have ri: "randint rs 0 (length dm) = Inr ?p" using N by (simp add: randint_def)
  have rw: "row dm (last [?p]) = Inr (dm ! ?p)" using p by (simp add: row_def)
  have len: "length (dm ! ?p) = C" using assms(1) p by simp
  show ?thesis
  proof (cases "maxmin_loop dm (nat (n - 1)) [?p] (dm ! ?p)")
    case (Inl e')
    then have "e' = IndexError" using maxmin_loop_error[OF assms(1,2) len] by blast
    moreover have "maxmin dm n rs = Inl e'" using ri rw Inl by (simp add: maxmin_def)
    ultimately show ?thesis using assms(4) by simp
  next
    case (Inr res)
    obtain L' d' where res: "res = (L', d')" by (cases res)
    then have "length d' = C" using maxmin_loop_error[OF assms(1,2) len] Inr by blast
    then have "d' \<noteq> []" using assms(2) by auto
    then have "np_max d' = Inr (Max (set d'))" by (rule np_max_spec)
    then have "maxmin dm n rs = Inr (L', Max (set d'))"
      using ri rw Inr res by (simp add: maxmin_def)
    then show ?thesis using assms(4) by simp
  qed
qed

subsection \<open>The draw sequences behind a result of uniform\_sampling\<close>

lemma residue_class_card:
  assumes "a < N"
  shows "card {x. x < N * m \<and> x mod N = a} = m"
proof -
  have "{x. x < N * m \<and> x mod N = a} = (\<lambda>q. a + N * q) ` {..<m}"
  proof (intro set_eqI iffI)
    fix x assume "x \<in> {x. x < N * m \<and> x mod N = a}"
    then have x: "x < N * m" "x mod N = a" by simp_all
    have "x = a + N * (x div N)" using x(2) by (metis mod_mult_div_eq)
    moreover have "x div N < m" using x(1) assms
      by (simp add: less_mult_imp_div_less mult.commute)
    ultimately show "x \<in> (\<lambda>q. a + N * q) ` {..<m}" by blast
  next
    fix x assume "x \<in> (\<lambda>q. a + N * q) ` {..<m}"
    then obtain q where q: "q < m" "x = a + N * q" by auto
    have "a + N * q < N * Suc q" using assms by simp
    also have "\<dots> \<le> N * m" using q(1) by (intro mult_le_mono2) simp
    finally have "x < N * m" using q(2) by simp
    moreover have "x mod N = a" using q(2) assms by simp
    ultimately show "x \<in> {x. x < N * m \<and> x mod N = a}" by simp
  qed
  moreover have "inj_on (\<lambda>q. a + N * q) {..<m}"
    using assms by (intro inj_onI) simp
  ultimately show ?thesis by (simp add: card_image)
qed

lemma draws_fibre_card:
  assumes "\<forall>i\<in>set L. i < N"
  shows "card {v. length v = length L \<and> set v \<subseteq> {..<N * m} \<and> map (\<lambda>x. x mod N) v = L}
         = m ^ length L"
  using assms
proof (induction L)
  case Nil
  have "{v::nat list. length v = length ([]::nat list) \<and> set v \<subseteq> {..<N * m} \<and> map (\<lambda>x. x mod N) v = []} = {[]}"
    by auto
  then show ?case by simp
next
  case (Cons a L)
  let ?A = "{x. x < N * m \<and> x mod N = a}"
  let ?B = "{v. length v = length L \<and> set v \<subseteq> {..<N * m} \<and> map (\<lambda>x. x mod N) v = L}"
  have "{v. length v = length (a # L) \<and> set v \<subseteq> {..<N * m} \<and> map (\<lambda>x. x mod N) v = a # L}
        = (\<lambda>(x, v). x # v) ` (?A \<times> ?B)"
  proof (intro set_eqI iffI)
    fix v assume "v \<in> {v. length v = length (a # L) \<and> set v \<subseteq> {..<N * m} \<and> map (\<lambda>x. x mod N) v = a # L}"
    then obtain x w where "v = x # w" "x \<in> ?A" "w \<in> ?B" by (cases v) auto
    then show "v \<in> (\<lambda>(x, v). x # v) ` (?A \<times> ?B)" by auto
  next
    fix v assume "v \<in> (\<lambda>(x, v). x # v) ` (?A \<times> ?B)"
    then show "v \<in> {v. length v = length (a # L) \<and> set v \<subseteq> {..<N * m} \<and> map (\<lambda>x. x mod N) v = a # L}"
      by auto
  qed
  moreover have "inj_on (\<lambda>(x, v). x # v) (?A \<times> ?B)" by (auto intro!: inj_onI)
  ultimately have "card {v. length v = length (a # L) \<and> set v \<subseteq> {..<N * m} \<and> map (\<lambda>x. x mod N) v = a # L}
        = card ?A * card ?B" by (simp add: card_image card_cartesian_product)
  moreover have "card ?A = m" using Cons.prems by (intro residue_class_card) simp
  moreover have "card ?B = m ^ length L" using Cons.prems by (intro Cons.IH) simp
  ultimately show ?case by simp
qed

lemma uniform_sampling_state_of:
  assumes "\<forall>r\<in>set dm. length r = C" "0 < C" "dm \<noteq> []" "1 \<le> n" "length v = nat n"
  shows "\<exists>cr. uniform_sampling dm n (state_of v) = Inr (map (\<lambda>x. x mod length dm) v, cr)"
proof -
  have "map (\<lambda>k. state_of v k mod length dm) [0..<nat n] = map (\<lambda>x. x mod length dm) v"
    using assms(5) by (intro nth_equalityI) (simp_all add: state_of_def)
  with uniform_sampling_run[OF assms(1-4), of "state_of v"] show ?thesis by simp
qed

section \<open>Runs on the store\<close>

lemma take_prefix_trans:
  assumes "take (length h1) h2 = h1" "take (length h) h1 = h"
  shows "take (length h) h2 = h"
proof -
  have "length (take (length h) h1) = length h" by (simp only: assms(2))
  then have le: "length h \<le> length h1" by simp
  have "take (length h) h2 = take (length h) (take (length h1) h2)" using le by (simp add: min_def)
  then show ?thesis using assms by simp
qed

lemma maxmin_loop_store_sim:
  assumes "a < length h" "fst r < length h"
  shows "take (length h) (snd (maxmin_loop_store h a k L r)) = h
       \<and> (case fst (maxmin_loop_store h a k L r) of
            Inl e \<Rightarrow> maxmin_loop (h ! a) k L (deref h r) = Inl e
          | Inr (L', r') \<Rightarrow>
              maxmin_loop (h ! a) k L (deref h r)
                = Inr (L', deref (snd (maxmin_loop_store h a k L r)) r'))"
  using assms
proof (induction k arbitrary: h L r)
  case 0
  then show ?case by simp
next
  case (Suc k)
  show ?case
  proof (cases "np_argmax (deref h r)")
    case (Inl e)
    then show ?thesis by simp
  next
    case (Inr ind)
    show ?thesis
    proof (cases "ind < length (h ! a)")
      case False
      then show ?thesis using Inr by (simp add: row_view_def row_def)
    next
      case True
      let ?v = "np_minimum (deref h r) (h ! a ! ind)"
      let ?h' = "h @ [[?v]]"
      let ?r' = "(length h, 0::nat)"
      have a': "a < length ?h'" and r': "fst ?r' < length ?h'" using Suc.prems by simp_all
      have same: "?h' ! a = h ! a" using Suc.prems(1) by (simp add: nth_append)
      have dr: "deref ?h' ?r' = ?v" by (simp add: deref_def)
      have step: "maxmin_loop_store h a (Suc k) L r = maxmin_loop_store ?h' a k (L @ [ind]) ?r'"
        using Inr True by (simp add: row_view_def new_vec_def alloc_def deref_def)
      have pure: "maxmin_loop (h ! a) (Suc k) L (deref h r)
                  = maxmin_loop (?h' ! a) k (L @ [ind]) (deref ?h' ?r')"
        using Inr True by (simp add: row_def same dr)
      from Suc.IH[OF a' r', of "L @ [ind]"]
      have ih: "take (length ?h') (snd (maxmin_loop_store ?h' a k (L @ [ind]) ?r')) = ?h'"
        and ih2: "(case fst (maxmin_loop_store ?h' a k (L @ [ind]) ?r') of
            Inl e \<Rightarrow> maxmin_loop (?h' ! a) k (L @ [ind]) (deref ?h' ?r') = Inl e
          | Inr (L', r'') \<Rightarrow>
              maxmin_loop (?h' ! a) k (L @ [ind]) (deref ?h' ?r')
                = Inr (L', deref (snd (maxmin_loop_store ?h' a k (L @ [ind]) ?r')) r''))"
        by blast+
      have "take (length h) ?h' = h" by simp
      with ih have "take (length h) (snd (maxmin_loop_store ?h' a k (L @ [ind]) ?r')) = h"
        by (rule take_prefix_trans)
      then show ?thesis using ih2 unfolding step pure by simp
    qed
  qed
qed

lemma maxmin_store_sim:
  assumes "a < length h"
  shows "take (length h) (snd (maxmin_store h a n rs)) = h
       \<and> fst (maxmin_store h a n rs) = maxmin (h ! a) n rs"
proof (cases "length (h ! a) = 0")
  case True
  then show ?thesis by (simp add: maxmin_store_def maxmin_def randint_def)
next
  case False
  let ?p = "rs 0 mod length (h ! a)"
  have p: "?p < length (h ! a)" using False by simp
  have ri: "randint rs 0 (length (h ! a)) = Inr ?p" using False by (simp add: randint_def)
  have rv: "row_view h a (last [?p]) = Inr (a, ?p)" using p by (simp add: row_view_def)
  have rw: "row (h ! a) (last [?p]) = Inr (h ! a ! ?p)" using p by (simp add: row_def)
  have dr: "deref h (a, ?p) = h ! a ! ?p" by (simp add: deref_def)
  let ?X = "maxmin_loop_store h a (nat (n - 1)) [?p] (a, ?p)"
  have "fst (a, ?p) < length h" using assms by simp
  from maxmin_loop_store_sim[OF assms this, of "nat (n - 1)" "[?p]"]
  have fr: "take (length h) (snd ?X) = h"
    and sim0: "(case fst ?X of
            Inl e \<Rightarrow> maxmin_loop (h ! a) (nat (n - 1)) [?p] (deref h (a, ?p)) = Inl e
          | Inr (L', r') \<Rightarrow>
              maxmin_loop (h ! a) (nat (n - 1)) [?p] (deref h (a, ?p)) = Inr (L', deref (snd ?X) r'))"
    by simp_all
  note sim = sim0[unfolded dr]
  obtain res h' where X: "?X = (res, h')" by (cases ?X)
  show ?thesis
  proof (cases res)
    case (Inl e)
    then show ?thesis using ri rv rw X fr sim by (simp add: maxmin_store_def maxmin_def)
  next
    case (Inr Lr)
    obtain L' r' where Lr: "Lr = (L', r')" by (cases Lr)
    show ?thesis using ri rv rw X fr sim Inr Lr
      by (simp add: maxmin_store_def maxmin_def split: sum.splits)
  qed
qed

lemma uniform_sampling_store_sim:
  "take (length h) (snd (uniform_sampling_store h a n rs)) = h
   \<and> fst (uniform_sampling_store h a n rs) = uniform_sampling (h ! a) n rs"
  by (simp add: uniform_sampling_store_def uniform_sampling_def alloc_def new_vec_def deref_def
      nth_append split: sum.splits)

lemma masked_assign_capped:
  "masked_assign d (map (\<lambda>bd. isinf (snd bd)) d) v = capped v d"
  by (induction d) (simp_all add: masked_assign_def capped_def)

lemma dims_loop_frame:
  "take (length h) (snd (dims_loop h diagrams ok alpha_max dims fig)) = h"
proof (induction dims arbitrary: h fig)
  case Nil
  then show ?case by simp
next
  case (Cons k dims)
  let ?c = "h ! (diagrams ! k)"
  let ?h2 = "h @ [capped alpha_max ?c]"
  have h2: "(h @ [?c])[length h := masked_assign ((h @ [?c]) ! length h)
              (map (\<lambda>bd. isinf (snd bd)) ((h @ [?c]) ! length h)) alpha_max] = ?h2"
    by (simp add: masked_assign_capped)
  have pre: "take (length h) ?h2 = h" by simp
  show ?case
  proof (cases "bars_loop ok alpha_max (capped alpha_max ?c) (map (\<lambda>bd. isinf (snd bd)) ?c)
                  [0..<length (capped alpha_max ?c)] 1 []")
    case (Inl e)
    then show ?thesis using h2 by (simp add: np_copy_def alloc_def Let_def masked_assign_capped)
  next
    case (Inr oh)
    obtain out hh where oh: "oh = (out, hh)" by (cases oh)
    show ?thesis
    proof (cases "ok \<and> isfinite (times_1_05 alpha_max)")
      case False
      then show ?thesis using Inr oh
        by (auto simp: np_copy_def alloc_def Let_def masked_assign_capped)
    next
      case True
      have "take (length ?h2)
              (snd (dims_loop ?h2 diagrams ok alpha_max dims
                     (fig @ [out @ [Xlim (times_1_05 alpha_max), Ylim hh]])))
            = ?h2" by (rule Cons.IH)
      then have "take (length h)
              (snd (dims_loop ?h2 diagrams ok alpha_max dims
                     (fig @ [out @ [Xlim (times_1_05 alpha_max), Ylim hh]])))
            = h" using pre by (rule take_prefix_trans)
      then show ?thesis using Inr oh True
        by (simp add: np_copy_def alloc_def Let_def masked_assign_capped)
    qed
  qed
qed

lemma plot_barcodes_frame:
  "take (length h) (snd (plot_barcodes h diagrams alpha_max)) = h"
  by (simp add: plot_barcodes_def Let_def dims_loop_frame)

lemma bars_loop_ok:
  "\<exists>out' hh. bars_loop True alpha_max barcode ind_inf idx h out = Inr (out', hh)"
  by (induction idx arbitrary: h out) (simp_all add: Let_def)

lemma dims_loop_store:
  assumes "\<forall>k\<in>set dims. diagrams ! k < length h0" "take (length h0) h = h0"
    and fin: "isfinite (times_1_05 alpha_max)"
  shows "\<exists>fig'. dims_loop h diagrams True alpha_max dims fig
         = (Inr fig', h @ map (\<lambda>k. capped alpha_max (h0 ! (diagrams ! k))) dims)"
  using assms(1,2)
proof (induction dims arbitrary: h fig)
  case Nil
  then show ?case by simp
next
  case (Cons k dims)
  have k: "diagrams ! k < length h0" using Cons.prems(1) by simp
  have "h ! (diagrams ! k) = take (length h0) h ! (diagrams ! k)" using k by simp
  then have c: "h ! (diagrams ! k) = h0 ! (diagrams ! k)" by (simp only: Cons.prems(2))
  let ?c = "h0 ! (diagrams ! k)"
  let ?h2 = "h @ [capped alpha_max ?c]"
  obtain out hh where b: "bars_loop True alpha_max (capped alpha_max ?c)
      (map (\<lambda>bd. isinf (snd bd)) ?c) [0..<length (capped alpha_max ?c)] 1 [] = Inr (out, hh)"
    using bars_loop_ok by blast
  have le: "length h0 \<le> length h"
  proof -
    have "length (take (length h0) h) = length h0" by (simp only: Cons.prems(2))
    then show ?thesis by simp
  qed
  have pre: "take (length h0) ?h2 = h0" using Cons.prems(2) le by simp
  have "\<exists>fig'. dims_loop ?h2 diagrams True alpha_max dims
                  (fig @ [out @ [Xlim (times_1_05 alpha_max), Ylim hh]])
         = (Inr fig', ?h2 @ map (\<lambda>k. capped alpha_max (h0 ! (diagrams ! k))) dims)"
    using Cons.prems(1) pre by (intro Cons.IH) simp_all
  then show ?case using b c fin
    by (simp add: np_copy_def alloc_def Let_def masked_assign_capped)
qed

lemma plot_barcodes_store:
  assumes "2 \<le> length diagrams" "\<forall>a\<in>set diagrams. a < length h"
    "isfinite (times_1_05 alpha_max)"
  shows "\<exists>fig. plot_barcodes h diagrams alpha_max
           = (Inr fig, h @ map (\<lambda>a. capped alpha_max (h ! a)) diagrams)"
proof -
  have "\<forall>k\<in>set [0..<length diagrams]. diagrams ! k < length h" using assms(2) by simp
  then have "\<exists>fig. dims_loop h diagrams True alpha_max [0..<length diagrams] []
         = (Inr fig, h @ map (\<lambda>k. capped alpha_max (h ! (diagrams ! k))) [0..<length diagrams])"
    using _ assms(3) by (rule dims_loop_store) simp
  moreover have "map (\<lambda>k. capped alpha_max (h ! (diagrams ! k))) [0..<length diagrams]
                 = map (\<lambda>a. capped alpha_max (h ! a)) diagrams"
    by (intro nth_equalityI) simp_all
  moreover have "diagrams \<noteq> []" using assms(1) by auto
  ultimately show ?thesis using assms(1) by (simp add: plot_barcodes_def Let_def)
qed

lemma plot_barcodes_bad_limit:
  assumes "2 \<le> length diagrams" "\<not> isfinite (times_1_05 alpha_max)"
  shows "plot_barcodes h diagrams alpha_max
           = (Inl ValueError, h @ [capped alpha_max (h ! (diagrams ! 0))])"
proof -
  let ?c = "h ! (diagrams ! 0)"
  have lt: "0 < length diagrams" using assms(1) by linarith
  have u: "[0..<length diagrams] = 0 # [Suc 0..<length diagrams]"
    by (rule upt_conv_Cons[OF lt])
  obtain out hh where b: "bars_loop True alpha_max (capped alpha_max ?c)
      (map (\<lambda>bd. isinf (snd bd)) ?c) [0..<length (capped alpha_max ?c)] 1 [] = Inr (out, hh)"
    using bars_loop_ok by blast
  have ne: "diagrams \<noteq> []" using lt by simp
  show ?thesis using assms b ne
    by (simp add: plot_barcodes_def Let_def u np_copy_def alloc_def masked_assign_capped
        del: upt_Suc)
qed

section \<open>The claims\<close>

text \<open>
  Claim C1. For a valid distance matrix of \<open>N\<close> points and \<open>1 \<le> n \<le> N\<close>,
  \<^verbatim>\<open>maxmin\<close> returns exactly \<open>n\<close> indices, each in \<open>[0, N)\<close>; the indices are pairwise
  distinct when the matrix is separated (different points are at positive distance).
  Without separation the indices can repeat: on \<open>twin_dm\<close>, which lists two positions
  twice, the third selection returns to point 0.
\<close>

theorem maxmin_indices:
  assumes "valid_dm dm" "1 \<le> n" "n \<le> int (length dm)"
  shows "\<exists>L cr. maxmin dm n rs = Inr (L, cr) \<and> int (length L) = n
           \<and> (\<forall>i\<in>set L. i < length dm) \<and> (separated dm \<longrightarrow> distinct L)"
proof -
  have ne: "dm \<noteq> []" using assms(2,3) by auto
  from maxmin_valid_run[OF assms(1) ne, of n rs] obtain L where L:
    "maxmin dm n rs = Inr (L, covering_radius dm L)"
    "length L = Suc (nat (n - 1))" "\<forall>i\<in>set L. i < length dm"
    "\<forall>m. 1 \<le> m \<and> m < length L \<longrightarrow>
        is_first_argmax (dists_to dm (length dm) (take m L)) (L ! m)"
    by blast
  have len: "int (length L) = n" using L(2) assms(2) by simp
  then have le: "length L \<le> length dm" using assms(3) by simp
  have "distinct L" if "separated dm"
    using assms(1) that le L(3,4) by (rule greedy_separated_distinct)
  with L(1,3) len show ?thesis by blast
qed

theorem maxmin_indices_witness:
  "valid_dm (square_dm 1 2) \<and> (1::int) \<le> 3 \<and> (3::int) \<le> int (length (square_dm 1 2))
   \<and> separated (square_dm 1 2)
   \<and> (\<exists>L cr. maxmin (square_dm 1 2) 3 (fixed_state 0) = Inr (L, cr) \<and> int (length L) = 3
           \<and> (\<forall>i\<in>set L. i < 4) \<and> distinct L)"
proof -
  have v: "valid_dm (square_dm 1 2)" by (simp add: valid_dm_def square_dm_def)
  have s: "separated (square_dm 1 2)" by (simp add: separated_def square_dm_def)
  have l: "length (square_dm 1 2) = 4" by (simp add: square_dm_def)
  have "(1::int) \<le> 3" "(3::int) \<le> int (length (square_dm 1 2))" by (simp_all add: l)
  from maxmin_indices[OF v this, of "fixed_state 0"] show ?thesis using v s l by auto
qed

theorem maxmin_indices_counterexample:
  "valid_dm twin_dm \<and> (1::int) \<le> 3 \<and> (3::int) \<le> int (length twin_dm)
   \<and> maxmin twin_dm 3 (fixed_state 0) = Inr ([0, 2, 0], 0) \<and> \<not> distinct [0, 2, 0::nat]"
  by (simp add: valid_dm_def twin_dm_def maxmin_def randint_def row_def np_argmax_def
      np_max_def np_minimum_def fixed_state_def numeral_2_eq_2)



text \<open>
  Claim C3. For a fixed valid distance matrix and a fixed generator state, the covering
  radius returned by \<^verbatim>\<open>maxmin\<close> is non-negative, and it does not increase with the
  sample size: for \<open>n' \<ge> n \<ge> 1\<close> the radius at \<open>n'\<close> is at most the radius at \<open>n\<close>.
\<close>

theorem covering_radius_monotone:
  assumes "valid_dm dm" "dm \<noteq> []" "1 \<le> n" "n \<le> n'"
  shows "\<exists>L cr L' cr'. maxmin dm n rs = Inr (L, cr) \<and> maxmin dm n' rs = Inr (L', cr')
           \<and> 0 \<le> cr \<and> 0 \<le> cr' \<and> cr' \<le> cr"
proof -
  let ?N = "length dm" and ?p = "rs 0 mod length dm"
  have N: "0 < ?N" using assms(2) by simp
  note rows = valid_rows[OF assms(1)]
  from maxmin_valid_run[OF assms(1,2), of n rs] obtain L where L:
    "maxmin dm n rs = Inr (L, covering_radius dm L)"
    "covering_radius dm L = Max (set (dists_to dm ?N L))"
    "maxmin_loop dm (nat (n - 1)) [?p] (dm ! ?p) = Inr (L, dists_to dm ?N L)"
    "length L = Suc (nat (n - 1))" "\<forall>i\<in>set L. i < ?N"
    by blast
  from maxmin_valid_run[OF assms(1,2), of n' rs] obtain L' where L':
    "maxmin dm n' rs = Inr (L', covering_radius dm L')"
    "covering_radius dm L' = Max (set (dists_to dm ?N L'))"
    "maxmin_loop dm (nat (n' - 1)) [?p] (dm ! ?p) = Inr (L', dists_to dm ?N L')"
    "length L' = Suc (nat (n' - 1))" "\<forall>i\<in>set L'. i < ?N"
    by blast
  have Lne: "L \<noteq> []" "L' \<noteq> []" using L(4) L'(4) by auto
  define k where "k = nat (n' - 1) - nat (n - 1)"
  have split: "nat (n' - 1) = nat (n - 1) + k" using assms(3,4) by (simp add: k_def)
  have cont: "maxmin_loop dm k L (dists_to dm ?N L) = Inr (L', dists_to dm ?N L')"
    using L'(3) L(3) unfolding split maxmin_loop_add by simp
  from maxmin_loop_inv[OF rows N order_refl Lne(1) L(5), of k] obtain L2 where
    "maxmin_loop dm k L (dists_to dm ?N L) = Inr (L2, dists_to dm ?N L2)" "take (length L) L2 = L"
    by blast
  with cont have pre: "take (length L) L' = L" by simp
  have "set (take (length L) L') \<subseteq> set L'" by (rule set_take_subset)
  then have sub: "set L \<subseteq> set L'" by (simp only: pre)
  have "Max (set (dists_to dm ?N L')) \<le> Max (set (dists_to dm ?N L))"
    using N Lne(1) sub by (rule Max_dists_to_antimono)
  moreover have "0 \<le> Max (set (dists_to dm ?N L'))"
    using assms(1,2) Lne(2) L'(5) by (rule Max_dists_to_nonneg)
  ultimately show ?thesis using L(1,2) L'(1,2) by auto
qed

theorem covering_radius_monotone_witness:
  "valid_dm (square_dm 1 2) \<and> square_dm 1 2 \<noteq> [] \<and> (1::int) \<le> 1 \<and> (1::int) \<le> 3 \<and>
   (\<exists>L cr L' cr'. maxmin (square_dm 1 2) 1 (fixed_state 0) = Inr (L, cr)
       \<and> maxmin (square_dm 1 2) 3 (fixed_state 0) = Inr (L', cr') \<and> 0 \<le> cr \<and> 0 \<le> cr' \<and> cr' \<le> cr)"
proof -
  have v: "valid_dm (square_dm 1 2)" by (simp add: valid_dm_def square_dm_def)
  have ne: "square_dm 1 2 \<noteq> []" by (simp add: square_dm_def)
  have "(1::int) \<le> 1" "(1::int) \<le> 3" by simp_all
  from covering_radius_monotone[OF v ne this, of "fixed_state 0"]
  show ?thesis using v ne by simp
qed

text \<open>
  Claim C4. On the four corners of a square with side \<open>s\<close> and diagonal \<open>d > s\<close>,
  \<^verbatim>\<open>maxmin\<close> with \<open>n = 2\<close>, under a generator state that selects point 0 first, returns
  the diagonally opposite point 2 (at distance \<open>d\<close>) as the second index, and the
  covering radius is the side \<open>s\<close>: the two corners left are each one side away from
  both selected corners. It is not the half-diagonal \<open>d / 2\<close>; on the unit square the
  radius is 1 and the half-diagonal is \<open>sqrt 2 / 2\<close>.
\<close>

theorem square_second_pick:
  assumes "0 < s" "s < d" "randint rs 0 (length (square_dm s d)) = Inr 0"
  shows "maxmin (square_dm s d) 2 rs = Inr ([0, 2], s) \<and> square_dm s d ! 0 ! 2 = d"
  using assms
  by (simp add: maxmin_def square_dm_def row_def np_argmax_def np_max_def np_minimum_def)

theorem square_second_pick_witness:
  "(0::real) < 1 \<and> (1::real) < sqrt 2 \<and> randint (fixed_state 0) 0 (length (square_dm 1 (sqrt 2))) = Inr 0
   \<and> maxmin (square_dm 1 (sqrt 2)) 2 (fixed_state 0) = Inr ([0, 2], 1)
   \<and> square_dm 1 (sqrt 2) ! 0 ! 2 = sqrt 2"
proof -
  have a: "(0::real) < 1" by simp
  have b: "(1::real) < sqrt 2" by simp
  have c: "randint (fixed_state 0) 0 (length (square_dm 1 (sqrt 2))) = Inr 0"
    by (simp add: randint_def fixed_state_def square_dm_def)
  from square_second_pick[OF a b c] show ?thesis using a b c by simp
qed

theorem square_radius_counterexample:
  "randint (fixed_state 0) 0 (length (square_dm 1 (sqrt 2))) = Inr 0
   \<and> maxmin (square_dm 1 (sqrt 2)) 2 (fixed_state 0) = Inr ([0, 2], 1)
   \<and> (1::real) \<noteq> sqrt 2 / 2"
proof -
  have "sqrt 2 < 2" by (rule real_less_lsqrt) simp_all
  then have "(1::real) \<noteq> sqrt 2 / 2" by simp
  moreover have "(1::real) < sqrt 2" by simp
  ultimately show ?thesis
    by (simp add: maxmin_def square_dm_def row_def np_argmax_def np_max_def np_minimum_def
        randint_def fixed_state_def)
qed

text \<open>
  Claim C5. For a valid distance matrix of \<open>N \<ge> 1\<close> points and every \<open>n \<ge> 1\<close>,
  \<^verbatim>\<open>uniform_sampling\<close> returns exactly \<open>n\<close> indices, each in \<open>[0, N)\<close>, drawn uniformly at
  random with replacement: every list of \<open>n\<close> indices of the range, with or without
  repeated entries, is the result for equally many sequences of raw draws of the
  generator (for \<open>m ^ n\<close> of the sequences of \<open>n\<close> raw draws below \<open>N * m\<close>, whatever
  \<open>m\<close>), so uniform raw draws give every list the same probability, and duplicate
  indices are possible. For \<open>n = 0\<close> it returns nothing: the minimum over zero selected
  rows raises ValueError.
\<close>

theorem uniform_sampling_indices:
  assumes "valid_dm dm" "dm \<noteq> []" "1 \<le> n"
  shows "(\<exists>L cr. uniform_sampling dm n rs = Inr (L, cr) \<and> int (length L) = n
            \<and> (\<forall>i\<in>set L. i < length dm))
       \<and> (\<forall>L. int (length L) = n \<and> (\<forall>i\<in>set L. i < length dm) \<longrightarrow>
            card {v. length v = nat n \<and> set v \<subseteq> {..<length dm * m}
                     \<and> (\<exists>cr. uniform_sampling dm n (state_of v) = Inr (L, cr))}
              = m ^ nat n)
       \<and> (2 \<le> n \<longrightarrow> (\<exists>rs' L cr. uniform_sampling dm n rs' = Inr (L, cr) \<and> \<not> distinct L))"
proof (intro conjI allI impI)
  let ?N = "length dm"
  have N: "0 < ?N" using assms(2) by simp
  note rows = valid_rows[OF assms(1)]
  let ?L = "\<lambda>rs. map (\<lambda>k. rs k mod ?N) [0..<nat n]"
  have run: "uniform_sampling dm n rs = Inr (?L rs, Max (set (dists_to dm ?N (?L rs))))" for rs
    using rows N assms(2,3) by (rule uniform_sampling_run)
  have "int (length (?L rs)) = n" using assms(3) by simp
  moreover have "\<forall>i\<in>set (?L rs). i < ?N" using N by simp
  ultimately show "\<exists>L cr. uniform_sampling dm n rs = Inr (L, cr) \<and> int (length L) = n
            \<and> (\<forall>i\<in>set L. i < length dm)"
    using run[of rs] by blast
  show "card {v. length v = nat n \<and> set v \<subseteq> {..<?N * m}
                 \<and> (\<exists>cr. uniform_sampling dm n (state_of v) = Inr (L, cr))} = m ^ nat n"
    if L: "int (length L) = n \<and> (\<forall>i\<in>set L. i < ?N)" for L
  proof -
    have len: "length L = nat n" using L by auto
    have eq: "(\<exists>cr. uniform_sampling dm n (state_of v) = Inr (L, cr))
              = (map (\<lambda>x. x mod ?N) v = L)" if v: "length v = nat n" for v :: "nat list"
      using uniform_sampling_state_of[OF rows N assms(2,3) v] by auto
    have "{v. length v = nat n \<and> set v \<subseteq> {..<?N * m}
              \<and> (\<exists>cr. uniform_sampling dm n (state_of v) = Inr (L, cr))}
          = {v. length v = length L \<and> set v \<subseteq> {..<?N * m} \<and> map (\<lambda>x. x mod ?N) v = L}"
      using eq by (auto simp: len)
    moreover have "card {v. length v = length L \<and> set v \<subseteq> {..<?N * m} \<and> map (\<lambda>x. x mod ?N) v = L}
          = m ^ length L" using L by (intro draws_fibre_card) simp
    ultimately show ?thesis by (simp add: len)
  qed
  show "\<exists>rs' L cr. uniform_sampling dm n rs' = Inr (L, cr) \<and> \<not> distinct L" if n2: "2 \<le> n"
  proof -
    let ?D = "?L (fixed_state 0)"
    have "\<not> distinct ?D"
    proof
      assume "distinct ?D"
      moreover have "0 < length ?D" "1 < length ?D" using n2 by simp_all
      ultimately have "?D ! 0 \<noteq> ?D ! 1" by (simp add: distinct_conv_nth del: length_map nth_map)
      moreover have "?D ! 0 = 0" "?D ! 1 = 0" using n2 by (simp_all add: fixed_state_def)
      ultimately show False by simp
    qed
    with run[of "fixed_state 0"] show ?thesis by blast
  qed
qed

theorem uniform_sampling_indices_witness:
  "valid_dm (square_dm 1 2) \<and> square_dm 1 2 \<noteq> [] \<and> (1::int) \<le> 3
   \<and> (\<exists>L cr. uniform_sampling (square_dm 1 2) 3 (fixed_state 1) = Inr (L, cr) \<and> int (length L) = 3
         \<and> (\<forall>i\<in>set L. i < 4))
   \<and> card {v. length v = 3 \<and> set v \<subseteq> {..<8}
              \<and> (\<exists>cr. uniform_sampling (square_dm 1 2) 3 (state_of v) = Inr ([1, 1, 3], cr))} = 8
   \<and> card {v. length v = 3 \<and> set v \<subseteq> {..<8}
              \<and> (\<exists>cr. uniform_sampling (square_dm 1 2) 3 (state_of v) = Inr ([0, 2, 1], cr))} = 8
   \<and> (\<exists>rs' L cr. uniform_sampling (square_dm 1 2) 3 rs' = Inr (L, cr) \<and> \<not> distinct L)"
proof -
  have v: "valid_dm (square_dm 1 2)" by (simp add: valid_dm_def square_dm_def)
  have ne: "square_dm 1 2 \<noteq> []" by (simp add: square_dm_def)
  have l: "length (square_dm 1 2) = 4" by (simp add: square_dm_def)
  have n: "(1::int) \<le> 3" by simp
  note T = uniform_sampling_indices[OF v ne n, of "fixed_state 1" 2]
  from T have A: "\<exists>L cr. uniform_sampling (square_dm 1 2) 3 (fixed_state 1) = Inr (L, cr)
         \<and> int (length L) = 3 \<and> (\<forall>i\<in>set L. i < 4)" by (simp add: l)
  from T have C: "\<forall>L. int (length L) = 3 \<and> (\<forall>i\<in>set L. i < 4) \<longrightarrow>
            card {v. length v = 3 \<and> set v \<subseteq> {..<8}
                     \<and> (\<exists>cr. uniform_sampling (square_dm 1 2) 3 (state_of v) = Inr (L, cr))} = 8"
    by (simp add: l)
  from C[rule_format, of "[1, 1, 3]"] C[rule_format, of "[0, 2, 1]"]
  have B: "card {v. length v = 3 \<and> set v \<subseteq> {..<8}
              \<and> (\<exists>cr. uniform_sampling (square_dm 1 2) 3 (state_of v) = Inr ([1, 1, 3], cr))} = 8"
    "card {v. length v = 3 \<and> set v \<subseteq> {..<8}
              \<and> (\<exists>cr. uniform_sampling (square_dm 1 2) 3 (state_of v) = Inr ([0, 2, 1], cr))} = 8"
    by simp_all
  from T have D: "\<exists>rs' L cr. uniform_sampling (square_dm 1 2) 3 rs' = Inr (L, cr) \<and> \<not> distinct L"
    by simp
  show ?thesis using v ne A B D by simp
qed

theorem uniform_sampling_zero_counterexample:
  "valid_dm (square_dm 1 2) \<and> uniform_sampling (square_dm 1 2) 0 (fixed_state 0) = Inl ValueError"
  by (simp add: valid_dm_def square_dm_def uniform_sampling_def choice_def np_min_axis0_def)

text \<open>
  Claim C6. For a valid distance matrix of \<open>N \<ge> 1\<close> points, \<^verbatim>\<open>maxmin\<close> with \<open>n = N\<close>
  returns \<open>N\<close> indices in \<open>[0, N)\<close> together with covering radius 0; when the matrix is
  separated the list holds every index exactly once. Without separation it need not: on
  \<open>twin3_dm\<close> point 1 coincides with point 0, is never selected, and point 0 is returned
  twice.
\<close>

theorem maxmin_all_points:
  assumes "valid_dm dm" "dm \<noteq> []"
  shows "\<exists>L. maxmin dm (int (length dm)) rs = Inr (L, 0) \<and> length L = length dm
           \<and> (\<forall>i\<in>set L. i < length dm)
           \<and> (separated dm \<longrightarrow> distinct L \<and> set L = {0..<length dm})"
proof -
  let ?N = "length dm"
  have N: "0 < ?N" using assms(2) by simp
  from maxmin_valid_run[OF assms, of "int ?N" rs] obtain L where L:
    "maxmin dm (int ?N) rs = Inr (L, covering_radius dm L)"
    "covering_radius dm L = Max (set (dists_to dm ?N L))"
    "length L = Suc (nat (int ?N - 1))" "\<forall>i\<in>set L. i < ?N"
    "\<forall>m. 1 \<le> m \<and> m < length L \<longrightarrow> is_first_argmax (dists_to dm ?N (take m L)) (L ! m)"
    by blast
  have "Suc (nat (int ?N - 1)) = ?N" using N by linarith
  then have len: "length L = ?N" using L(3) by simp
  have "Max (set (dists_to dm ?N L)) = 0"
    using assms len L(4,5) by (rule greedy_full_cover)
  then have run: "maxmin dm (int ?N) rs = Inr (L, 0)" using L(1,2) by simp
  have perm: "distinct L \<and> set L = {0..<?N}" if "separated dm"
  proof -
    have d: "distinct L"
      using assms(1) that _ L(4,5) by (rule greedy_separated_distinct) (simp add: len)
    then have "card (set L) = ?N" using len by (simp add: distinct_card)
    moreover have "set L \<subseteq> {0..<?N}" using L(4) by auto
    ultimately have "set L = {0..<?N}" by (intro card_subset_eq) auto
    with d show ?thesis by simp
  qed
  show ?thesis using run len L(4) perm by blast
qed

theorem maxmin_all_points_witness:
  "valid_dm (square_dm 1 2) \<and> square_dm 1 2 \<noteq> [] \<and> separated (square_dm 1 2)
   \<and> (\<exists>L. maxmin (square_dm 1 2) (int (length (square_dm 1 2))) (fixed_state 0) = Inr (L, 0)
         \<and> length L = 4 \<and> distinct L \<and> set L = {0..<4})"
proof -
  have v: "valid_dm (square_dm 1 2)" by (simp add: valid_dm_def square_dm_def)
  have s: "separated (square_dm 1 2)" by (simp add: separated_def square_dm_def)
  have ne: "square_dm 1 2 \<noteq> []" by (simp add: square_dm_def)
  have l: "length (square_dm 1 2) = 4" by (simp add: square_dm_def)
  from maxmin_all_points[OF v ne, of "fixed_state 0"] show ?thesis using v s ne l by auto
qed

theorem maxmin_all_points_counterexample:
  "valid_dm twin3_dm
   \<and> maxmin twin3_dm (int (length twin3_dm)) (fixed_state 0) = Inr ([0, 2, 0], 0)
   \<and> \<not> distinct [0, 2, 0::nat] \<and> (1::nat) \<notin> set [0, 2, 0]"
  by (simp add: valid_dm_def twin3_dm_def maxmin_def randint_def row_def np_argmax_def
      np_max_def np_minimum_def fixed_state_def numeral_2_eq_2)

text \<open>
  Claim C7. The list returned by \<^verbatim>\<open>maxmin\<close> is a greedy farthest-point traversal: at
  every position \<open>j \<ge> 1\<close> the index \<open>L ! j\<close> is the first occurrence of the maximum of the
  per-point minimum distances to the prefix \<open>take j L\<close>. The loop's state after \<open>j\<close>
  iterations is that prefix extended by \<open>L ! j\<close> together with the array \<open>dist_trace\<close>,
  which starts as the first point's distance row and is replaced, after each selection,
  by its elementwise minimum with the new point's distance row; that array holds the
  minimum distances to the points selected so far, and the returned radius is the
  maximum of the last one.
\<close>

theorem maxmin_greedy:
  assumes "valid_dm dm" "dm \<noteq> []"
  shows "\<exists>L cr. maxmin dm n rs = Inr (L, cr)
           \<and> (\<forall>j. 1 \<le> j \<and> j < length L \<longrightarrow>
                  is_first_argmax (dists_to dm (length dm) (take j L)) (L ! j))
           \<and> (\<forall>j. j < length L \<longrightarrow>
                  maxmin_loop dm j [L ! 0] (dm ! (L ! 0)) = Inr (take (Suc j) L, dist_trace dm L j)
                  \<and> dist_trace dm L j = dists_to dm (length dm) (take (Suc j) L))
           \<and> cr = Max (set (dist_trace dm L (length L - 1)))"
proof -
  let ?N = "length dm" and ?p = "rs 0 mod length dm"
  have N: "0 < ?N" using assms(2) by simp
  note rows = valid_rows[OF assms(1)]
  from maxmin_valid_run[OF assms, of n rs] obtain L where L:
    "maxmin dm n rs = Inr (L, covering_radius dm L)"
    "covering_radius dm L = Max (set (dists_to dm ?N L))"
    "maxmin_loop dm (nat (n - 1)) [?p] (dm ! ?p) = Inr (L, dists_to dm ?N L)"
    "length L = Suc (nat (n - 1))" "L ! 0 = ?p" "\<forall>i\<in>set L. i < ?N"
    "\<forall>m. 1 \<le> m \<and> m < length L \<longrightarrow> is_first_argmax (dists_to dm ?N (take m L)) (L ! m)"
    by blast
  have p: "?p < ?N" using N by simp
  have tr: "dist_trace dm L j = dists_to dm ?N (take (Suc j) L)" if "j < length L" for j
    using rows L(6) that by (rule dist_trace_dists_to)
  have st: "maxmin_loop dm j [L ! 0] (dm ! (L ! 0)) = Inr (take (Suc j) L, dist_trace dm L j)"
    if "j < length L" for j
  proof -
    have "j \<le> nat (n - 1)" using that L(4) by simp
    from maxmin_loop_prefix[OF rows N order_refl p L(3) this] show ?thesis
      using tr[OF that] L(5) by simp
  qed
  have "dist_trace dm L (length L - 1) = dists_to dm ?N L"
    using tr[of "length L - 1"] L(4) by simp
  then have "covering_radius dm L = Max (set (dist_trace dm L (length L - 1)))"
    using L(2) by simp
  then show ?thesis using L(1,7) tr st by blast
qed

theorem maxmin_greedy_witness:
  "valid_dm (square_dm 1 2) \<and> square_dm 1 2 \<noteq> []
   \<and> (\<exists>L cr. maxmin (square_dm 1 2) 3 (fixed_state 0) = Inr (L, cr) \<and> L = [0, 2, 1]
        \<and> is_first_argmax (dists_to (square_dm 1 2) 4 [0]) 2
        \<and> is_first_argmax (dists_to (square_dm 1 2) 4 [0, 2]) 1
        \<and> dist_trace (square_dm 1 2) L 2 = [0, 0, 0, 1]
        \<and> cr = Max (set (dist_trace (square_dm 1 2) L 2)))"
proof -
  have v: "valid_dm (square_dm 1 2)" by (simp add: valid_dm_def square_dm_def)
  have ne: "square_dm 1 2 \<noteq> []" by (simp add: square_dm_def)
  have l: "length (square_dm 1 2) = 4" by (simp add: square_dm_def)
  have run: "maxmin (square_dm 1 2) 3 (fixed_state 0) = Inr ([0, 2, 1], 1)"
    by (simp add: square_dm_def maxmin_def randint_def row_def np_argmax_def
      np_max_def np_minimum_def fixed_state_def numeral_2_eq_2)
  have tr: "dist_trace (square_dm 1 2) [0, 2, 1] 2 = [0, 0, 0, 1]"
    by (simp add: square_dm_def np_minimum_def numeral_2_eq_2)
  from maxmin_greedy[OF v ne, of 3 "fixed_state 0"] obtain L cr where
    a: "maxmin (square_dm 1 2) 3 (fixed_state 0) = Inr (L, cr)"
    and b: "\<forall>j. 1 \<le> j \<and> j < length L \<longrightarrow>
              is_first_argmax (dists_to (square_dm 1 2) (length (square_dm 1 2)) (take j L)) (L ! j)"
    and c: "cr = Max (set (dist_trace (square_dm 1 2) L (length L - 1)))"
    by blast
  from a run have L: "L = [0, 2, 1]" by simp
  from b[rule_format, of 1] have g1: "is_first_argmax (dists_to (square_dm 1 2) 4 [0]) 2"
    by (simp add: L l)
  from b[rule_format, of 2] have g2: "is_first_argmax (dists_to (square_dm 1 2) 4 [0, 2]) 1"
    by (simp add: L l)
  have "length L - 1 = 2" by (simp add: L)
  with c have c': "cr = Max (set (dist_trace (square_dm 1 2) L 2))" by (simp only:)
  show ?thesis using v ne a L g1 g2 tr c' by blast
qed

text \<open>
  Claim C8. Neither function checks its arguments. On every array with at least one row,
  at least one column and no more columns than rows (square or not), \<^verbatim>\<open>maxmin\<close> returns
  for every \<open>n\<close>, also beyond the number of points, where it keeps selecting and the
  \<open>max n 1\<close> returned indices necessarily repeat; \<^verbatim>\<open>uniform_sampling\<close> returns \<open>n\<close>
  indices for every \<open>n \<ge> 1\<close>, also beyond the number of points. The only failure of
  \<^verbatim>\<open>maxmin\<close> on an array with rows and columns is the IndexError of the row access, and
  it needs an array with more columns than rows.
\<close>

theorem no_validation:
  assumes rect: "rectangular dm C" and "0 < C" "dm \<noteq> []"
  shows "(C \<le> length dm \<longrightarrow>
            (\<exists>L cr. maxmin dm n rs = Inr (L, cr) \<and> int (length L) = max n 1
               \<and> (\<forall>i\<in>set L. i < length dm)
               \<and> (int (length dm) < n \<longrightarrow> \<not> distinct L)))
       \<and> (\<forall>e. maxmin dm n rs = Inl e \<longrightarrow> e = IndexError \<and> length dm < C)
       \<and> (1 \<le> n \<longrightarrow> (\<exists>L cr. uniform_sampling dm n rs = Inr (L, cr) \<and> int (length L) = n))"
proof -
  have rows: "\<forall>r\<in>set dm. length r = C" using rect by (simp add: rectangular_def)
  have ok: "\<exists>L cr. maxmin dm n rs = Inr (L, cr) \<and> int (length L) = max n 1
               \<and> (\<forall>i\<in>set L. i < length dm)
               \<and> (int (length dm) < n \<longrightarrow> \<not> distinct L)" if le: "C \<le> length dm"
  proof -
    from maxmin_run[OF rows assms(2) le, of n rs] obtain L where L:
      "maxmin dm n rs = Inr (L, Max (set (dists_to dm C L)))"
      "length L = Suc (nat (n - 1))" "\<forall>i\<in>set L. i < length dm"
      by blast
    have len: "int (length L) = max n 1" using L(2) by simp
    have rep: "\<not> distinct L" if big: "int (length dm) < n"
    proof
      assume "distinct L"
      then have "card (set L) = length L" by (rule distinct_card)
      moreover have "set L \<subseteq> {..<length dm}" using L(3) by auto
      then have "card (set L) \<le> card {..<length dm}" by (intro card_mono) auto
      ultimately show False using len big by simp
    qed
    show ?thesis using L(1,3) len rep by blast
  qed
  have err: "e = IndexError \<and> length dm < C" if "maxmin dm n rs = Inl e" for e
  proof
    show "e = IndexError" using rows assms(2,3) that by (rule maxmin_error)
    show "length dm < C"
    proof (rule ccontr)
      assume "\<not> length dm < C"
      then have "C \<le> length dm" by simp
      from ok[OF this] show False using that by auto
    qed
  qed
  have uni: "\<exists>L cr. uniform_sampling dm n rs = Inr (L, cr) \<and> int (length L) = n" if "1 \<le> n"
  proof -
    have "uniform_sampling dm n rs =
           Inr (map (\<lambda>k. rs k mod length dm) [0..<nat n],
                Max (set (dists_to dm C (map (\<lambda>k. rs k mod length dm) [0..<nat n]))))"
      using rows assms(2,3) that by (rule uniform_sampling_run)
    moreover have "int (length (map (\<lambda>k. rs k mod length dm) [0..<nat n])) = n"
      using that by simp
    ultimately show ?thesis by blast
  qed
  show ?thesis using ok err uni by blast
qed

theorem no_validation_witness:
  "rectangular (square_dm 1 2) 4 \<and> (0::nat) < 4 \<and> square_dm 1 2 \<noteq> []
   \<and> (4::nat) \<le> length (square_dm 1 2) \<and> int (length (square_dm 1 2)) < 6 \<and> (1::int) \<le> 6
   \<and> (\<exists>L cr. maxmin (square_dm 1 2) 6 (fixed_state 0) = Inr (L, cr) \<and> int (length L) = 6
         \<and> \<not> distinct L)
   \<and> (\<exists>L cr. uniform_sampling (square_dm 1 2) 6 (fixed_state 0) = Inr (L, cr) \<and> int (length L) = 6)
   \<and> rectangular [[0, 1, 2], [1, 0, 3]] 3 \<and> (0::nat) < 3
   \<and> maxmin [[0, 1, 2], [1, 0, 3]] 3 (fixed_state 0) = Inl IndexError
   \<and> length [[0, 1, 2], [1, 0, 3::real]] < 3"
proof -
  have r: "rectangular (square_dm 1 2) 4" by (simp add: rectangular_def square_dm_def)
  have ne: "square_dm 1 2 \<noteq> []" by (simp add: square_dm_def)
  have l: "length (square_dm 1 2) = 4" by (simp add: square_dm_def)
  have r2: "rectangular [[0, 1, 2], [1, 0, 3]] 3" by (simp add: rectangular_def)
  have e: "maxmin [[0, 1, 2], [1, 0, 3]] 3 (fixed_state 0) = Inl IndexError"
    by (simp add: maxmin_def randint_def row_def np_argmax_def
      np_max_def np_minimum_def fixed_state_def numeral_2_eq_2)
  from no_validation[OF r _ ne, of 6 "fixed_state 0"]
  have A: "(\<exists>L cr. maxmin (square_dm 1 2) 6 (fixed_state 0) = Inr (L, cr) \<and> int (length L) = 6
         \<and> \<not> distinct L)
   \<and> (\<exists>L cr. uniform_sampling (square_dm 1 2) 6 (fixed_state 0) = Inr (L, cr) \<and> int (length L) = 6)"
    by (auto simp: l)
  from no_validation[OF r2, of 3 "fixed_state 0"] e
  have B: "length [[0, 1, 2], [1, 0, 3::real]] < 3" by simp
  show ?thesis using r ne l r2 e A B by simp
qed

text \<open>
  Claim C9. For a valid distance matrix of at least one point and every \<open>n \<le> 1\<close> (zero
  and negative \<open>n\<close> included), \<^verbatim>\<open>maxmin\<close> returns exactly one index, the initial draw,
  together with the covering radius of that single point; in general the returned list
  has length \<open>max n 1\<close>.
\<close>

theorem maxmin_single:
  assumes "valid_dm dm" "dm \<noteq> []"
  shows "(n \<le> 1 \<longrightarrow>
            (\<exists>p. randint rs 0 (length dm) = Inr p
               \<and> maxmin dm n rs = Inr ([p], covering_radius dm [p])))
       \<and> (\<exists>L cr. maxmin dm n rs = Inr (L, cr) \<and> int (length L) = max n 1)"
proof -
  let ?p = "rs 0 mod length dm"
  have N: "0 < length dm" using assms(2) by simp
  have ri: "randint rs 0 (length dm) = Inr ?p" using N by (simp add: randint_def)
  from maxmin_valid_run[OF assms, of n rs] obtain L where L:
    "maxmin dm n rs = Inr (L, covering_radius dm L)"
    "length L = Suc (nat (n - 1))" "L ! 0 = ?p"
    by blast
  have len: "int (length L) = max n 1" using L(2) by simp
  have one: "L = [?p]" if "n \<le> 1"
  proof -
    have "length L = 1" using L(2) that by simp
    then show ?thesis using L(3) by (cases L) simp_all
  qed
  show ?thesis using ri L(1) len one by auto
qed

theorem maxmin_single_witness:
  "valid_dm (square_dm 1 2) \<and> square_dm 1 2 \<noteq> [] \<and> (0::int) \<le> 1
   \<and> randint (fixed_state 3) 0 (length (square_dm 1 2)) = Inr 3
   \<and> maxmin (square_dm 1 2) 0 (fixed_state 3) = Inr ([3], covering_radius (square_dm 1 2) [3])
   \<and> (\<exists>L cr. maxmin (square_dm 1 2) 0 (fixed_state 3) = Inr (L, cr) \<and> int (length L) = 1)
   \<and> (\<exists>L cr. maxmin (square_dm 1 2) (- 5) (fixed_state 3) = Inr (L, cr) \<and> int (length L) = 1)"
proof -
  have v: "valid_dm (square_dm 1 2)" by (simp add: valid_dm_def square_dm_def)
  have ne: "square_dm 1 2 \<noteq> []" by (simp add: square_dm_def)
  have ri: "randint (fixed_state 3) 0 (length (square_dm 1 2)) = Inr 3"
    by (simp add: randint_def fixed_state_def square_dm_def)
  from maxmin_single[OF v ne, of 0 "fixed_state 3"] maxmin_single[OF v ne, of "- 5" "fixed_state 3"]
  show ?thesis using v ne ri by auto
qed

text \<open>
  Claim C10. None of the three helpers changes an array it is given. Whatever store
  \<^verbatim>\<open>maxmin\<close> and \<^verbatim>\<open>uniform_sampling\<close> start from, the store they leave is the initial
  one followed by the arrays they allocated, so the caller's distance matrix is as
  before, and their results are those of the functions on the matrix's contents.
  \<^verbatim>\<open>plot_barcodes\<close> writes the display maximum only into the copy it made of each
  diagram: the store it leaves is the initial one followed by the copies, whether it
  returns or raises. With at least two diagrams and a finite limit \<^verbatim>\<open>1.05*alpha_max\<close> it
  runs through, and the copies are the diagrams with the display maximum in place of
  the infinite death values; with a limit that is not finite it raises ValueError in
  the first dimension, after one copy.
\<close>

theorem helpers_leave_inputs_unchanged:
  assumes "dist_matrix < length h"
  shows "take (length h) (snd (maxmin_store h dist_matrix n rs)) = h
       \<and> fst (maxmin_store h dist_matrix n rs) = maxmin (h ! dist_matrix) n rs
       \<and> take (length h) (snd (uniform_sampling_store h dist_matrix n rs)) = h
       \<and> fst (uniform_sampling_store h dist_matrix n rs) = uniform_sampling (h ! dist_matrix) n rs
       \<and> take (length dh) (snd (plot_barcodes dh diagrams alpha_max)) = dh
       \<and> (2 \<le> length diagrams \<and> (\<forall>a\<in>set diagrams. a < length dh)
            \<and> isfinite (times_1_05 alpha_max) \<longrightarrow>
            (\<exists>fig. plot_barcodes dh diagrams alpha_max
               = (Inr fig, dh @ map (\<lambda>a. capped alpha_max (dh ! a)) diagrams)))
       \<and> (2 \<le> length diagrams \<and> \<not> isfinite (times_1_05 alpha_max) \<longrightarrow>
            plot_barcodes dh diagrams alpha_max
              = (Inl ValueError, dh @ [capped alpha_max (dh ! (diagrams ! 0))]))"
  using maxmin_store_sim[OF assms, of n rs] uniform_sampling_store_sim[of h dist_matrix n rs]
    plot_barcodes_frame[of dh diagrams alpha_max] plot_barcodes_store[of diagrams dh alpha_max]
    plot_barcodes_bad_limit[of diagrams alpha_max dh]
  by blast

theorem helpers_leave_inputs_unchanged_witness:
  "(0::nat) < length [square_dm 1 2]
   \<and> take 1 (snd (maxmin_store [square_dm 1 2] 0 3 (fixed_state 0))) = [square_dm 1 2]
   \<and> fst (maxmin_store [square_dm 1 2] 0 3 (fixed_state 0)) = maxmin (square_dm 1 2) 3 (fixed_state 0)
   \<and> take 1 (snd (uniform_sampling_store [square_dm 1 2] 0 3 (fixed_state 0))) = [square_dm 1 2]
   \<and> fst (uniform_sampling_store [square_dm 1 2] 0 3 (fixed_state 0))
       = uniform_sampling (square_dm 1 2) 3 (fixed_state 0)
   \<and> take 2 (snd (plot_barcodes example_diagrams [0, 1] (Fin 5))) = example_diagrams
   \<and> isfinite (times_1_05 (Fin 5))
   \<and> (\<exists>fig. plot_barcodes example_diagrams [0, 1] (Fin 5)
         = (Inr fig, example_diagrams @ [[(Fin 0, Fin 5), (Fin 0, Fin 1)], [(Fin 1, Fin 2)]]))
   \<and> \<not> isfinite (times_1_05 PInf)
   \<and> plot_barcodes example_diagrams [0, 1] PInf
       = (Inl ValueError, example_diagrams @ [[(Fin 0, PInf), (Fin 0, Fin 1)]])"
proof -
  have a: "(0::nat) < length [square_dm 1 2]" by simp
  have l: "length example_diagrams = 2" by (simp add: example_diagrams_def)
  have f: "isfinite (times_1_05 (Fin 5))" by (simp add: times_1_05_def)
  have g: "\<not> isfinite (times_1_05 PInf)" by (simp add: times_1_05_def)
  have d: "(2::nat) \<le> length [0::nat, 1] \<and> (\<forall>a\<in>set [0::nat, 1]. a < length example_diagrams)"
    by (simp add: l)
  have c: "capped (Fin 5) (example_diagrams ! 0) = [(Fin 0, Fin 5), (Fin 0, Fin 1)]"
    "capped (Fin 5) (example_diagrams ! Suc 0) = [(Fin 1, Fin 2)]"
    "capped PInf (example_diagrams ! 0) = [(Fin 0, PInf), (Fin 0, Fin 1)]"
    by (simp_all add: example_diagrams_def capped_def)
  from helpers_leave_inputs_unchanged[OF a, of 3 "fixed_state 0" example_diagrams "[0, 1]" "Fin 5"]
  have A: "take 1 (snd (maxmin_store [square_dm 1 2] 0 3 (fixed_state 0))) = [square_dm 1 2]
   \<and> fst (maxmin_store [square_dm 1 2] 0 3 (fixed_state 0)) = maxmin (square_dm 1 2) 3 (fixed_state 0)
   \<and> take 1 (snd (uniform_sampling_store [square_dm 1 2] 0 3 (fixed_state 0))) = [square_dm 1 2]
   \<and> fst (uniform_sampling_store [square_dm 1 2] 0 3 (fixed_state 0))
       = uniform_sampling (square_dm 1 2) 3 (fixed_state 0)
   \<and> take 2 (snd (plot_barcodes example_diagrams [0, 1] (Fin 5))) = example_diagrams
   \<and> (\<exists>fig. plot_barcodes example_diagrams [0, 1] (Fin 5)
         = (Inr fig, example_diagrams @ [[(Fin 0, Fin 5), (Fin 0, Fin 1)], [(Fin 1, Fin 2)]]))"
    using d f by (simp add: l c)
  from helpers_leave_inputs_unchanged[OF a, of 3 "fixed_state 0" example_diagrams "[0, 1]" PInf]
  have B: "plot_barcodes example_diagrams [0, 1] PInf
       = (Inl ValueError, example_diagrams @ [[(Fin 0, PInf), (Fin 0, Fin 1)]])"
    using g by (simp add: c)
  show ?thesis using a f g A B by simp
qed

end
